theory Spec2Isabelle
  imports Complex_Main
begin

section \<open>Wigner, Clebsch-Gordan, Racah and Gaunt coefficients (sage.functions.wigner)\<close>

text \<open>
  An argument of the module is a rational number (a Sage \<open>Integer\<close> or \<open>Rational\<close>). A
  result is exact or inexact. An exact result (a Python int, an \<open>Integer\<close>, a \<open>Rational\<close>
  or a symbolic expression) is the real number it denotes. An inexact result (a Python
  float or an element of \<open>RealField(prec)\<close>) is produced by arithmetic that is not part of
  the module; this arithmetic is a parameter of the embedding, of which nothing is
  assumed unless a theorem says so.

  \<open>wigner_3j\<close>, \<open>_big_delta_coeff\<close> and \<open>gaunt\<close> are embedded as the default call
  (\<open>prec=None\<close>), with a real number as result; \<open>wigner_3j_prec\<close> and
  \<open>big_delta_coeff_prec\<close> are the same functions with their argument \<open>prec\<close>, and agree
  with them for \<open>prec=None\<close>. \<open>clebsch_gordan\<close>, \<open>racah\<close>, \<open>wigner_6j\<close> and \<open>wigner_9j\<close> are
  embedded with their argument \<open>prec\<close>.

  The module keeps one piece of mutable state, the list \<open>_Factlist\<close>. Every function
  below takes the list and returns it with its result, and every exception of the
  source is an \<open>Inl\<close> value.
\<close>

subsection \<open>Exceptions and the Python primitives the module relies on\<close>

datatype error =
    ValueError_j          \<comment> \<open>"j values must be integer or half integer"\<close>
  | ValueError_m          \<comment> \<open>"m values must be integer or half integer"\<close>
  | ValueError_triangle   \<comment> \<open>"j values must be integer or half integer and fulfill the triangle relation"\<close>
  | TypeError             \<comment> \<open>a non-integral number where an integer is required\<close>
  | IndexError            \<comment> \<open>list index out of range\<close>
  | ZeroDivisionError

text \<open>\<open>int(x)\<close> truncates towards zero.\<close>

definition py_int :: "rat \<Rightarrow> int" where
  "py_int x = (if 0 \<le> x then \<lfloor>x\<rfloor> else \<lceil>x\<rceil>)"

definition is_integral :: "rat \<Rightarrow> bool" where
  "is_integral x \<longleftrightarrow> of_int \<lfloor>x\<rfloor> = x"

text \<open>\<open>Integer(x)\<close>, and the conversion \<open>range\<close> and list indexing apply to a bound or
  an index: the integer itself, a \<open>TypeError\<close> when \<open>x\<close> has a fractional part.\<close>

definition to_Integer :: "rat \<Rightarrow> error + int" where
  "to_Integer x = (if is_integral x then Inr \<lfloor>x\<rfloor> else Inl TypeError)"

text \<open>\<open>xs[i]\<close>: an index below zero counts from the end, an index outside the list
  raises.\<close>

definition py_index :: "'a list \<Rightarrow> int \<Rightarrow> error + 'a" where
  "py_index xs i =
     (if 0 \<le> i \<and> i < int (length xs) then Inr (xs ! nat i)
      else if i < 0 \<and> - int (length xs) \<le> i then Inr (xs ! nat (int (length xs) + i))
      else Inl IndexError)"

text \<open>\<open>xs[:stop]\<close>: a negative \<open>stop\<close> counts from the end; both are clipped to the
  list.\<close>

definition py_slice_to :: "'a list \<Rightarrow> int \<Rightarrow> 'a list" where
  "py_slice_to xs stop =
     (if stop < 0 then take (nat (int (length xs) + stop)) xs else take (nat stop) xs)"

text \<open>\<open>(-1) ** n\<close> for an integer \<open>n\<close> (for a negative \<open>n\<close> Python computes the float
  of the same value, which \<open>Integer\<close> converts back).\<close>

definition neg1_pow :: "int \<Rightarrow> int" where
  "neg1_pow n = (if even n then 1 else - 1)"

text \<open>Exact division of two numbers.\<close>

definition py_div :: "rat \<Rightarrow> rat \<Rightarrow> error + rat" where
  "py_div a b = (if b = 0 then Inl ZeroDivisionError else Inr (a / b))"

subsection \<open>The factorial cache\<close>

text \<open>The initial value of \<open>_Factlist\<close>.\<close>

definition Factlist_init :: "int list" where
  "Factlist_init = [1]"

text \<open>The body of \<open>_calc_factlist\<close>'s loop, over the indices \<open>range\<close> yields: each
  step appends \<open>_Factlist[ii - 1] * ii\<close>.\<close>

fun calc_factlist_loop :: "int list \<Rightarrow> int list \<Rightarrow> (error + unit) \<times> int list" where
  "calc_factlist_loop [] fl = (Inr (), fl)"
| "calc_factlist_loop (ii # iis) fl =
     (case py_index fl (ii - 1) of
        Inl e \<Rightarrow> (Inl e, fl)
      | Inr v \<Rightarrow> calc_factlist_loop iis (fl @ [v * ii]))"

text \<open>\<open>_calc_factlist(nn)\<close>: the returned list and the new \<open>_Factlist\<close>.\<close>

definition calc_factlist :: "rat \<Rightarrow> int list \<Rightarrow> (error + int list) \<times> int list" where
  "calc_factlist nn fl =
     (case (if nn \<ge> of_nat (length fl)
            then (case to_Integer (nn + 1) of
                    Inl e \<Rightarrow> (Inl e, fl)
                  | Inr stop \<Rightarrow> calc_factlist_loop [int (length fl) .. stop - 1] fl)
            else (Inr (), fl)) of
        (Inl e, fl') \<Rightarrow> (Inl e, fl')
      | (Inr u, fl') \<Rightarrow>
          (case to_Integer nn of
             Inl e \<Rightarrow> (Inl e, fl')
           | Inr n \<Rightarrow> (Inr (py_slice_to fl' (n + 1)), fl')))"

text \<open>The list \<open>[0!, 1!, ..., (n-1)!]\<close>.\<close>

definition factorials :: "nat \<Rightarrow> int list" where
  "factorials n = map (\<lambda>i. fact i) [0..<n]"

text \<open>The values \<open>_Factlist\<close> can take: the initial one, and what a call of
  \<open>_calc_factlist\<close> leaves, whatever its argument and whether or not it raises.\<close>

inductive reachable :: "int list \<Rightarrow> bool" where
  init: "reachable Factlist_init"
| call: "reachable fl \<Longrightarrow> reachable (snd (calc_factlist nn fl))"

subsection \<open>Computations that use the cache\<close>

text \<open>A computation reads and extends \<open>_Factlist\<close> and either raises or returns.\<close>

type_synonym 'a cached = "int list \<Rightarrow> (error + 'a) \<times> int list"

definition return_c :: "'a \<Rightarrow> 'a cached" where
  "return_c x = (\<lambda>fl. (Inr x, fl))"

definition raise_c :: "error \<Rightarrow> 'a cached" where
  "raise_c e = (\<lambda>fl. (Inl e, fl))"

definition bind_c :: "'a cached \<Rightarrow> ('a \<Rightarrow> 'b cached) \<Rightarrow> 'b cached" where
  "bind_c f g = (\<lambda>fl. case f fl of (Inl e, fl') \<Rightarrow> (Inl e, fl') | (Inr x, fl') \<Rightarrow> g x fl')"

text \<open>A step that only reads the list.\<close>

definition read_c :: "(int list \<Rightarrow> error + 'a) \<Rightarrow> 'a cached" where
  "read_c r = (\<lambda>fl. (r fl, fl))"

definition bind_e :: "error + 'a \<Rightarrow> ('a \<Rightarrow> error + 'b) \<Rightarrow> error + 'b" where
  "bind_e r g = (case r of Inl e \<Rightarrow> Inl e | Inr x \<Rightarrow> g x)"

text \<open>\<open>_Factlist[i1] * _Factlist[i2] * ...\<close>, read from left to right.\<close>

fun Factlist_prod :: "int list \<Rightarrow> int list \<Rightarrow> error + int" where
  "Factlist_prod fl [] = Inr 1"
| "Factlist_prod fl (i # is) =
     bind_e (py_index fl i) (\<lambda>x. bind_e (Factlist_prod fl is) (\<lambda>y. Inr (x * y)))"

text \<open>\<open>sumres = 0; for ii in range: sumres = sumres + term(ii)\<close>, for a term that only
  reads the list.\<close>

fun sum_loop :: "(int \<Rightarrow> error + rat) \<Rightarrow> int list \<Rightarrow> rat \<Rightarrow> error + rat" where
  "sum_loop term [] sumres = Inr sumres"
| "sum_loop term (ii # iis) sumres =
     bind_e (term ii) (\<lambda>t. sum_loop term iis (sumres + t))"

text \<open>\<open>x.sqrt()\<close> of an exact number, as a real number. (The radicands of the module
  are not negative when \<open>_Factlist\<close> holds factorials; for a negative \<open>x\<close> Sage returns
  an imaginary number, which this embedding does not represent.)\<close>

definition sage_sqrt :: "rat \<Rightarrow> real" where
  "sage_sqrt x = sqrt (of_rat x)"

subsection \<open>Exact and inexact numbers\<close>

text \<open>A number the module computes with: an exact one, as the real number it denotes, or
  an inexact one (a Python float, an element of \<open>RealField(prec)\<close>).\<close>

datatype 'f num = Exact real | Inexact 'f

text \<open>The arithmetic of inexact numbers belongs to Python and to Sage's rings, not to the
  module: \<open>x.sqrt(prec)\<close> of a rational \<open>x\<close> for a precision \<open>prec\<close> (exact or not), the
  float of an integer, a product and a sum of which an operand is inexact (the result
  is inexact), and the test \<open>x == 0\<close> of an inexact \<open>x\<close>.\<close>

record 'f numerics =
  sqrt_prec :: "rat \<Rightarrow> nat \<Rightarrow> 'f num"
  py_float :: "int \<Rightarrow> 'f"
  mul_inexact :: "'f num \<Rightarrow> 'f num \<Rightarrow> 'f"
  add_inexact :: "'f num \<Rightarrow> 'f num \<Rightarrow> 'f"
  is_zero_inexact :: "'f \<Rightarrow> bool"

text \<open>\<open>x * y\<close>, \<open>x + y\<close> and \<open>x == 0\<close>.\<close>

definition num_mul :: "'f numerics \<Rightarrow> 'f num \<Rightarrow> 'f num \<Rightarrow> 'f num" where
  "num_mul N x y =
     (case (x, y) of (Exact a, Exact b) \<Rightarrow> Exact (a * b) | _ \<Rightarrow> Inexact (mul_inexact N x y))"

definition num_add :: "'f numerics \<Rightarrow> 'f num \<Rightarrow> 'f num \<Rightarrow> 'f num" where
  "num_add N x y =
     (case (x, y) of (Exact a, Exact b) \<Rightarrow> Exact (a + b) | _ \<Rightarrow> Inexact (add_inexact N x y))"

definition num_is_zero :: "'f numerics \<Rightarrow> 'f num \<Rightarrow> bool" where
  "num_is_zero N x = (case x of Exact a \<Rightarrow> a = 0 | Inexact f \<Rightarrow> is_zero_inexact N f)"

text \<open>\<open>(-1) ** n\<close> for a Python int \<open>n\<close>, where no \<open>Integer\<close> converts it: an int for
  \<open>n \<ge> 0\<close>, the float of that value for \<open>n < 0\<close>.\<close>

definition py_neg1_pow :: "'f numerics \<Rightarrow> int \<Rightarrow> 'f num" where
  "py_neg1_pow N n =
     (if 0 \<le> n then Exact (of_int (neg1_pow n)) else Inexact (py_float N (neg1_pow n)))"

text \<open>\<open>x.sqrt(prec)\<close>: the exact square root for \<open>prec=None\<close>, as above. (The radicands
  of the module are not negative when \<open>_Factlist\<close> holds factorials; the result is then
  no \<open>ComplexNumber\<close>, and the branch that takes its real part is not entered.)\<close>

definition sage_sqrt_prec :: "'f numerics \<Rightarrow> rat \<Rightarrow> nat option \<Rightarrow> 'f num" where
  "sage_sqrt_prec N x prec =
     (case prec of None \<Rightarrow> Exact (sage_sqrt x) | Some p \<Rightarrow> sqrt_prec N x p)"

text \<open>\<open>sumres = 0; for kk in range: sumres = sumres + term(kk)\<close>, for a term that calls
  functions of the module.\<close>

fun sum_loop_c :: "'f numerics \<Rightarrow> (int \<Rightarrow> 'f num cached) \<Rightarrow> int list \<Rightarrow> 'f num \<Rightarrow> 'f num cached" where
  "sum_loop_c N term [] sumres = return_c sumres"
| "sum_loop_c N term (kk # kks) sumres =
     bind_c (term kk) (\<lambda>t. sum_loop_c N term kks (num_add N sumres t))"

subsection \<open>\<open>wigner_3j\<close> and \<open>clebsch_gordan\<close>\<close>

definition wigner_3j_term :: "rat \<Rightarrow> rat \<Rightarrow> rat \<Rightarrow> rat \<Rightarrow> rat \<Rightarrow> int list \<Rightarrow> int \<Rightarrow> error + rat" where
  "wigner_3j_term j_1 j_2 j_3 m_1 m_2 fl ii =
     bind_e (Factlist_prod fl
              [ii,
               py_int (of_int ii + j_3 - j_1 - m_2),
               py_int (j_2 + m_2 - of_int ii),
               py_int (j_1 - of_int ii - m_1),
               py_int (of_int ii + j_3 - j_2 + m_1),
               py_int (j_1 + j_2 - j_3 - of_int ii)])
       (\<lambda>den. py_div (of_int (neg1_pow ii)) (of_int den))"

definition wigner_3j :: "rat \<Rightarrow> rat \<Rightarrow> rat \<Rightarrow> rat \<Rightarrow> rat \<Rightarrow> rat \<Rightarrow> real cached" where
  "wigner_3j j_1 j_2 j_3 m_1 m_2 m_3 =
     (if of_int (py_int (j_1 * 2)) \<noteq> j_1 * 2 \<or> of_int (py_int (j_2 * 2)) \<noteq> j_2 * 2 \<or>
         of_int (py_int (j_3 * 2)) \<noteq> j_3 * 2
      then raise_c ValueError_j
      else if of_int (py_int (m_1 * 2)) \<noteq> m_1 * 2 \<or> of_int (py_int (m_2 * 2)) \<noteq> m_2 * 2 \<or>
         of_int (py_int (m_3 * 2)) \<noteq> m_3 * 2
      then raise_c ValueError_m
      else if m_1 + m_2 + m_3 \<noteq> 0 then return_c 0
      else
        let prefid = neg1_pow (py_int (j_1 - j_2 - m_3));
            m_3 = - m_3;
            a1 = j_1 + j_2 - j_3
        in if a1 < 0 then return_c 0
        else let a2 = j_1 - j_2 + j_3
        in if a2 < 0 then return_c 0
        else let a3 = - j_1 + j_2 + j_3
        in if a3 < 0 then return_c 0
        else if \<bar>m_1\<bar> > j_1 \<or> \<bar>m_2\<bar> > j_2 \<or> \<bar>m_3\<bar> > j_3 then return_c 0
        else
          let maxfact = max (max (max (j_1 + j_2 + j_3 + 1) (j_1 + \<bar>m_1\<bar>)) (j_2 + \<bar>m_2\<bar>))
                          (j_3 + \<bar>m_3\<bar>)
          in
          bind_c (calc_factlist maxfact) (\<lambda>_.
          bind_c (read_c (\<lambda>fl. Factlist_prod fl
                    [py_int (j_1 + j_2 - j_3), py_int (j_1 - j_2 + j_3), py_int (- j_1 + j_2 + j_3),
                     py_int (j_1 - m_1), py_int (j_1 + m_1), py_int (j_2 - m_2),
                     py_int (j_2 + m_2), py_int (j_3 - m_3), py_int (j_3 + m_3)])) (\<lambda>num.
          bind_c (read_c (\<lambda>fl. py_index fl (py_int (j_1 + j_2 + j_3 + 1)))) (\<lambda>den.
          bind_c (read_c (\<lambda>_. py_div (of_int num) (of_int den))) (\<lambda>argsqrt.
          let ressqrt = sage_sqrt argsqrt;
              imin = py_int (max (max (- j_3 + j_1 + m_2) (- j_3 + j_2 - m_1)) 0);
              imax = py_int (min (min (j_2 + m_2) (j_1 - m_1)) (j_1 + j_2 - j_3))
          in
          bind_c (read_c (\<lambda>fl. sum_loop (wigner_3j_term j_1 j_2 j_3 m_1 m_2 fl) [imin .. imax] 0))
            (\<lambda>sumres.
          return_c (ressqrt * of_rat sumres * of_int prefid)))))))"

text \<open>\<open>wigner_3j\<close> with its argument \<open>prec\<close>: the square root is taken with it, and 0 is
  the Python int.\<close>

definition wigner_3j_prec ::
  "'f numerics \<Rightarrow> rat \<Rightarrow> rat \<Rightarrow> rat \<Rightarrow> rat \<Rightarrow> rat \<Rightarrow> rat \<Rightarrow> nat option \<Rightarrow> 'f num cached" where
  "wigner_3j_prec N j_1 j_2 j_3 m_1 m_2 m_3 prec =
     (if of_int (py_int (j_1 * 2)) \<noteq> j_1 * 2 \<or> of_int (py_int (j_2 * 2)) \<noteq> j_2 * 2 \<or>
         of_int (py_int (j_3 * 2)) \<noteq> j_3 * 2
      then raise_c ValueError_j
      else if of_int (py_int (m_1 * 2)) \<noteq> m_1 * 2 \<or> of_int (py_int (m_2 * 2)) \<noteq> m_2 * 2 \<or>
         of_int (py_int (m_3 * 2)) \<noteq> m_3 * 2
      then raise_c ValueError_m
      else if m_1 + m_2 + m_3 \<noteq> 0 then return_c (Exact 0)
      else
        let prefid = neg1_pow (py_int (j_1 - j_2 - m_3));
            m_3 = - m_3;
            a1 = j_1 + j_2 - j_3
        in if a1 < 0 then return_c (Exact 0)
        else let a2 = j_1 - j_2 + j_3
        in if a2 < 0 then return_c (Exact 0)
        else let a3 = - j_1 + j_2 + j_3
        in if a3 < 0 then return_c (Exact 0)
        else if \<bar>m_1\<bar> > j_1 \<or> \<bar>m_2\<bar> > j_2 \<or> \<bar>m_3\<bar> > j_3 then return_c (Exact 0)
        else
          let maxfact = max (max (max (j_1 + j_2 + j_3 + 1) (j_1 + \<bar>m_1\<bar>)) (j_2 + \<bar>m_2\<bar>))
                          (j_3 + \<bar>m_3\<bar>)
          in
          bind_c (calc_factlist maxfact) (\<lambda>_.
          bind_c (read_c (\<lambda>fl. Factlist_prod fl
                    [py_int (j_1 + j_2 - j_3), py_int (j_1 - j_2 + j_3), py_int (- j_1 + j_2 + j_3),
                     py_int (j_1 - m_1), py_int (j_1 + m_1), py_int (j_2 - m_2),
                     py_int (j_2 + m_2), py_int (j_3 - m_3), py_int (j_3 + m_3)])) (\<lambda>num.
          bind_c (read_c (\<lambda>fl. py_index fl (py_int (j_1 + j_2 + j_3 + 1)))) (\<lambda>den.
          bind_c (read_c (\<lambda>_. py_div (of_int num) (of_int den))) (\<lambda>argsqrt.
          let ressqrt = sage_sqrt_prec N argsqrt prec;
              imin = py_int (max (max (- j_3 + j_1 + m_2) (- j_3 + j_2 - m_1)) 0);
              imax = py_int (min (min (j_2 + m_2) (j_1 - m_1)) (j_1 + j_2 - j_3))
          in
          bind_c (read_c (\<lambda>fl. sum_loop (wigner_3j_term j_1 j_2 j_3 m_1 m_2 fl) [imin .. imax] 0))
            (\<lambda>sumres.
          return_c (num_mul N (num_mul N ressqrt (Exact (of_rat sumres)))
                      (Exact (of_int prefid)))))))))"

text \<open>\<open>clebsch_gordan\<close>: the phase and the square root are multiplied before \<open>wigner_3j\<close> is
  called, and the phase is not converted with \<open>Integer\<close>.\<close>

definition clebsch_gordan ::
  "'f numerics \<Rightarrow> rat \<Rightarrow> rat \<Rightarrow> rat \<Rightarrow> rat \<Rightarrow> rat \<Rightarrow> rat \<Rightarrow> nat option \<Rightarrow> 'f num cached" where
  "clebsch_gordan N j_1 j_2 j_3 m_1 m_2 m_3 prec =
     (let phase = num_mul N (py_neg1_pow N (py_int (j_1 - j_2 + m_3)))
                    (sage_sqrt_prec N (2 * j_3 + 1) prec)
      in bind_c (wigner_3j_prec N j_1 j_2 j_3 m_1 m_2 (- m_3) prec) (\<lambda>w.
         return_c (num_mul N phase w)))"

subsection \<open>\<open>_big_delta_coeff\<close>, \<open>racah\<close>, \<open>wigner_6j\<close> and \<open>wigner_9j\<close>\<close>

definition big_delta_coeff :: "rat \<Rightarrow> rat \<Rightarrow> rat \<Rightarrow> real cached" where
  "big_delta_coeff aa bb cc =
     (if of_int (py_int (aa + bb - cc)) \<noteq> aa + bb - cc then raise_c ValueError_triangle
      else if of_int (py_int (aa + cc - bb)) \<noteq> aa + cc - bb then raise_c ValueError_triangle
      else if of_int (py_int (bb + cc - aa)) \<noteq> bb + cc - aa then raise_c ValueError_triangle
      else if aa + bb - cc < 0 then return_c 0
      else if aa + cc - bb < 0 then return_c 0
      else if bb + cc - aa < 0 then return_c 0
      else
        let maxfact = max (max (max (aa + bb - cc) (aa + cc - bb)) (bb + cc - aa))
                        (aa + bb + cc + 1)
        in
        bind_c (calc_factlist maxfact) (\<lambda>_.
        bind_c (read_c (\<lambda>fl. Factlist_prod fl
                  [py_int (aa + bb - cc), py_int (aa + cc - bb), py_int (bb + cc - aa)])) (\<lambda>num.
        bind_c (read_c (\<lambda>fl. py_index fl (py_int (aa + bb + cc + 1)))) (\<lambda>den.
        bind_c (read_c (\<lambda>_. py_div (of_int num) (of_int den))) (\<lambda>argsqrt.
        return_c (sage_sqrt argsqrt))))))"

text \<open>\<open>_big_delta_coeff\<close> with its argument \<open>prec\<close>.\<close>

definition big_delta_coeff_prec ::
  "'f numerics \<Rightarrow> rat \<Rightarrow> rat \<Rightarrow> rat \<Rightarrow> nat option \<Rightarrow> 'f num cached" where
  "big_delta_coeff_prec N aa bb cc prec =
     (if of_int (py_int (aa + bb - cc)) \<noteq> aa + bb - cc then raise_c ValueError_triangle
      else if of_int (py_int (aa + cc - bb)) \<noteq> aa + cc - bb then raise_c ValueError_triangle
      else if of_int (py_int (bb + cc - aa)) \<noteq> bb + cc - aa then raise_c ValueError_triangle
      else if aa + bb - cc < 0 then return_c (Exact 0)
      else if aa + cc - bb < 0 then return_c (Exact 0)
      else if bb + cc - aa < 0 then return_c (Exact 0)
      else
        let maxfact = max (max (max (aa + bb - cc) (aa + cc - bb)) (bb + cc - aa))
                        (aa + bb + cc + 1)
        in
        bind_c (calc_factlist maxfact) (\<lambda>_.
        bind_c (read_c (\<lambda>fl. Factlist_prod fl
                  [py_int (aa + bb - cc), py_int (aa + cc - bb), py_int (bb + cc - aa)])) (\<lambda>num.
        bind_c (read_c (\<lambda>fl. py_index fl (py_int (aa + bb + cc + 1)))) (\<lambda>den.
        bind_c (read_c (\<lambda>_. py_div (of_int num) (of_int den))) (\<lambda>argsqrt.
        return_c (sage_sqrt_prec N argsqrt prec))))))"

definition racah_term :: "rat \<Rightarrow> rat \<Rightarrow> rat \<Rightarrow> rat \<Rightarrow> rat \<Rightarrow> rat \<Rightarrow> int list \<Rightarrow> int \<Rightarrow> error + rat" where
  "racah_term aa bb cc dd ee ff fl kk =
     bind_e (Factlist_prod fl
              [py_int (of_int kk - aa - bb - ee),
               py_int (of_int kk - cc - dd - ee),
               py_int (of_int kk - aa - cc - ff),
               py_int (of_int kk - bb - dd - ff),
               py_int (aa + bb + cc + dd - of_int kk),
               py_int (aa + dd + ee + ff - of_int kk),
               py_int (bb + cc + ee + ff - of_int kk)]) (\<lambda>den.
     bind_e (py_index fl (kk + 1)) (\<lambda>f.
     py_div (of_int (neg1_pow kk * f)) (of_int den)))"

text \<open>\<open>racah\<close>: the four factors of \<open>prefac\<close> are computed and multiplied from left to
  right.\<close>

definition racah ::
  "'f numerics \<Rightarrow> rat \<Rightarrow> rat \<Rightarrow> rat \<Rightarrow> rat \<Rightarrow> rat \<Rightarrow> rat \<Rightarrow> nat option \<Rightarrow> 'f num cached" where
  "racah N aa bb cc dd ee ff prec =
     bind_c (big_delta_coeff_prec N aa bb ee prec) (\<lambda>d1.
     bind_c (big_delta_coeff_prec N cc dd ee prec) (\<lambda>d2.
     bind_c (big_delta_coeff_prec N aa cc ff prec) (\<lambda>d3.
     bind_c (big_delta_coeff_prec N bb dd ff prec) (\<lambda>d4.
     let prefac = num_mul N (num_mul N (num_mul N d1 d2) d3) d4
     in if num_is_zero N prefac then return_c (Exact 0)
     else
       let imin = py_int (max (max (max (aa + bb + ee) (cc + dd + ee)) (aa + cc + ff)) (bb + dd + ff));
           imax = py_int (min (min (aa + bb + cc + dd) (aa + dd + ee + ff)) (bb + cc + ee + ff));
           maxfact = max (max (max (of_int imax + 1) (aa + bb + cc + dd)) (aa + dd + ee + ff))
                       (bb + cc + ee + ff)
       in
       bind_c (calc_factlist maxfact) (\<lambda>_.
       bind_c (read_c (\<lambda>fl. sum_loop (racah_term aa bb cc dd ee ff fl) [imin .. imax] 0)) (\<lambda>sumres.
       return_c (num_mul N (num_mul N prefac (Exact (of_rat sumres)))
                   (py_neg1_pow N (py_int (aa + bb + cc + dd))))))))))"

definition wigner_6j ::
  "'f numerics \<Rightarrow> rat \<Rightarrow> rat \<Rightarrow> rat \<Rightarrow> rat \<Rightarrow> rat \<Rightarrow> rat \<Rightarrow> nat option \<Rightarrow> 'f num cached" where
  "wigner_6j N j_1 j_2 j_3 j_4 j_5 j_6 prec =
     (let phase = py_neg1_pow N (py_int (j_1 + j_2 + j_4 + j_5))
      in bind_c (racah N j_1 j_2 j_5 j_4 j_3 j_6 prec) (\<lambda>r.
         return_c (num_mul N phase r)))"

definition wigner_9j_term ::
  "'f numerics \<Rightarrow> rat \<Rightarrow> rat \<Rightarrow> rat \<Rightarrow> rat \<Rightarrow> rat \<Rightarrow> rat \<Rightarrow> rat \<Rightarrow> rat \<Rightarrow> rat \<Rightarrow> nat option \<Rightarrow>
   int \<Rightarrow> 'f num cached" where
  "wigner_9j_term N j_1 j_2 j_3 j_4 j_5 j_6 j_7 j_8 j_9 prec kk =
     bind_c (racah N j_1 j_2 j_9 j_6 j_3 (of_int kk) prec) (\<lambda>r1.
     bind_c (racah N j_4 j_6 j_8 j_2 j_5 (of_int kk) prec) (\<lambda>r2.
     bind_c (racah N j_1 j_4 j_9 j_8 j_7 (of_int kk) prec) (\<lambda>r3.
     return_c (num_mul N (num_mul N (num_mul N (Exact (of_int (2 * kk + 1))) r1) r2) r3))))"

definition wigner_9j ::
  "'f numerics \<Rightarrow> rat \<Rightarrow> rat \<Rightarrow> rat \<Rightarrow> rat \<Rightarrow> rat \<Rightarrow> rat \<Rightarrow> rat \<Rightarrow> rat \<Rightarrow> rat \<Rightarrow> nat option \<Rightarrow>
   'f num cached" where
  "wigner_9j N j_1 j_2 j_3 j_4 j_5 j_6 j_7 j_8 j_9 prec =
     (let imin = 0;
          imax = py_int (min (min (j_1 + j_9) (j_2 + j_6)) (j_4 + j_8))
      in sum_loop_c N (wigner_9j_term N j_1 j_2 j_3 j_4 j_5 j_6 j_7 j_8 j_9 prec) [imin .. imax]
           (Exact 0))"

subsection \<open>\<open>gaunt\<close>\<close>

definition gaunt_term :: "int \<Rightarrow> int \<Rightarrow> int \<Rightarrow> int \<Rightarrow> int \<Rightarrow> int list \<Rightarrow> int \<Rightarrow> error + rat" where
  "gaunt_term l_1 l_2 l_3 m_1 m_2 fl ii =
     bind_e (Factlist_prod fl
              [ii, ii + l_3 - l_1 - m_2, l_2 + m_2 - ii, l_1 - ii - m_1,
               ii + l_3 - l_2 + m_1, l_1 + l_2 - l_3 - ii])
       (\<lambda>den. py_div (of_int (neg1_pow ii)) (of_int den))"

text \<open>The body of \<open>gaunt\<close> after its arguments are converted with \<open>Integer\<close>. \<open>bigL\<close> is a
  \<open>Rational\<close>: used as an index it has to be integral.\<close>

definition gaunt_Integer :: "int \<Rightarrow> int \<Rightarrow> int \<Rightarrow> int \<Rightarrow> int \<Rightarrow> int \<Rightarrow> real cached" where
  "gaunt_Integer l_1 l_2 l_3 m_1 m_2 m_3 =
     (let bigL = (of_int (l_1 + l_2 + l_3) :: rat) / 2;
          a1 = l_1 + l_2 - l_3
      in if a1 < 0 then return_c 0
      else let a2 = l_1 - l_2 + l_3
      in if a2 < 0 then return_c 0
      else let a3 = - l_1 + l_2 + l_3
      in if a3 < 0 then return_c 0
      else if py_int (2 * bigL) mod 2 \<noteq> 0 then return_c 0
      else if m_1 + m_2 + m_3 \<noteq> 0 then return_c 0
      else if \<bar>m_1\<bar> > l_1 \<or> \<bar>m_2\<bar> > l_2 \<or> \<bar>m_3\<bar> > l_3 then return_c 0
      else
        let imin = max (max (- l_3 + l_1 + m_2) (- l_3 + l_2 - m_1)) 0;
            imax = min (min (l_2 + m_2) (l_1 - m_1)) (l_1 + l_2 - l_3);
            maxfact = max (l_1 + l_2 + l_3 + 1) (imax + 1)
        in
        bind_c (calc_factlist (of_int maxfact)) (\<lambda>_.
        bind_c (read_c (\<lambda>fl. Factlist_prod fl
                  [l_1 - m_1, l_1 + m_1, l_2 - m_2, l_2 + m_2, l_3 - m_3, l_3 + m_3])) (\<lambda>fs.
        let argsqrt = real_of_int ((2 * l_1 + 1) * (2 * l_2 + 1) * (2 * l_3 + 1) * fs) / (4 * pi);
            ressqrt = sqrt argsqrt
        in
        bind_c (read_c (\<lambda>fl.
                  bind_e (to_Integer bigL) (\<lambda>iL.
                  bind_e (Factlist_prod fl [iL, l_2 - l_1 + l_3, l_1 - l_2 + l_3, l_1 + l_2 - l_3]) (\<lambda>num.
                  bind_e (to_Integer (2 * bigL + 1)) (\<lambda>i2L.
                  bind_e (py_index fl i2L) (\<lambda>den1.
                  bind_e (py_div (of_int num) (of_int den1)) (\<lambda>q.
                  bind_e (to_Integer (bigL - of_int l_1)) (\<lambda>i1.
                  bind_e (to_Integer (bigL - of_int l_2)) (\<lambda>i2.
                  bind_e (to_Integer (bigL - of_int l_3)) (\<lambda>i3.
                  bind_e (Factlist_prod fl [i1, i2, i3]) (\<lambda>den2.
                  py_div q (of_int den2)))))))))))) (\<lambda>prefac.
        bind_c (read_c (\<lambda>fl. sum_loop (gaunt_term l_1 l_2 l_3 m_1 m_2 fl) [imin .. imax] 0)) (\<lambda>sumres.
        return_c (ressqrt * of_rat prefac * of_rat sumres *
                  of_int (neg1_pow (py_int (bigL + of_int l_3 + of_int m_1 - of_int m_2)))))))))"

definition gaunt :: "rat \<Rightarrow> rat \<Rightarrow> rat \<Rightarrow> rat \<Rightarrow> rat \<Rightarrow> rat \<Rightarrow> real cached" where
  "gaunt l_1 l_2 l_3 m_1 m_2 m_3 =
     bind_c (read_c (\<lambda>_. to_Integer l_1)) (\<lambda>l_1.
     bind_c (read_c (\<lambda>_. to_Integer l_2)) (\<lambda>l_2.
     bind_c (read_c (\<lambda>_. to_Integer l_3)) (\<lambda>l_3.
     bind_c (read_c (\<lambda>_. to_Integer m_1)) (\<lambda>m_1.
     bind_c (read_c (\<lambda>_. to_Integer m_2)) (\<lambda>m_2.
     bind_c (read_c (\<lambda>_. to_Integer m_3)) (\<lambda>m_3.
     gaunt_Integer l_1 l_2 l_3 m_1 m_2 m_3))))))"

subsection \<open>The formulas of the specification\<close>

text \<open>\<open>x!\<close> as the formulas use it: the factorial of the natural number \<open>x\<close>. (For
  another \<open>x\<close> it is the factorial of \<open>int(x)\<close>, the entry of the table the code
  reads.)\<close>

definition factorial :: "rat \<Rightarrow> 'a :: semiring_char_0" where
  "factorial x = fact (nat (py_int x))"

text \<open>\<open>\<Delta>(a, b, c) = sqrt[(a+b-c)! (a+c-b)! (b+c-a)! / (a+b+c+1)!]\<close>\<close>

definition Delta :: "rat \<Rightarrow> rat \<Rightarrow> rat \<Rightarrow> real" where
  "Delta a b c =
     sqrt (factorial (a + b - c) * factorial (a + c - b) * factorial (b + c - a) /
           factorial (a + b + c + 1))"

text \<open>The Wigner 3-j symbol by Racah's formula: the sign \<open>(-1)^(j1-j2-m3)\<close>, the square
  root of the radicand and the alternating sum over \<open>k\<close>. The radicand takes the third
  magnetic number negated, as the code has it at that point.\<close>

definition wigner_3j_radicand :: "rat \<Rightarrow> rat \<Rightarrow> rat \<Rightarrow> rat \<Rightarrow> rat \<Rightarrow> rat \<Rightarrow> rat" where
  "wigner_3j_radicand j1 j2 j3 m1 m2 m3 =
     factorial (j1 + j2 - j3) * factorial (j1 - j2 + j3) * factorial (- j1 + j2 + j3) *
     factorial (j1 - m1) * factorial (j1 + m1) * factorial (j2 - m2) * factorial (j2 + m2) *
     factorial (j3 - m3) * factorial (j3 + m3) / factorial (j1 + j2 + j3 + 1)"

definition wigner_3j_sum :: "rat \<Rightarrow> rat \<Rightarrow> rat \<Rightarrow> rat \<Rightarrow> rat \<Rightarrow> rat" where
  "wigner_3j_sum j1 j2 j3 m1 m2 =
     (\<Sum>k\<leftarrow>[py_int (max (max (- j3 + j1 + m2) (- j3 + j2 - m1)) 0) ..
              py_int (min (min (j2 + m2) (j1 - m1)) (j1 + j2 - j3))].
        (- 1) powi k /
        (factorial (of_int k) * factorial (of_int k + j3 - j1 - m2) * factorial (j2 + m2 - of_int k) *
         factorial (j1 - of_int k - m1) * factorial (of_int k + j3 - j2 + m1) *
         factorial (j1 + j2 - j3 - of_int k)))"

definition wigner_3j_formula :: "rat \<Rightarrow> rat \<Rightarrow> rat \<Rightarrow> rat \<Rightarrow> rat \<Rightarrow> rat \<Rightarrow> real" where
  "wigner_3j_formula j1 j2 j3 m1 m2 m3 =
     (- 1) powi py_int (j1 - j2 - m3) *
     sqrt (of_rat (wigner_3j_radicand j1 j2 j3 m1 m2 (- m3))) *
     of_rat (wigner_3j_sum j1 j2 j3 m1 m2)"

text \<open>What \<open>_big_delta_coeff\<close> raises or returns, as the specification describes it: an
  error when one of the three quantities is not an integer, 0 when one is negative,
  the Delta coefficient otherwise.\<close>

definition big_delta_coeff_result :: "rat \<Rightarrow> rat \<Rightarrow> rat \<Rightarrow> error + real" where
  "big_delta_coeff_result a b c =
     (if \<not> (is_integral (a + b - c) \<and> is_integral (a + c - b) \<and> is_integral (b + c - a))
      then Inl ValueError_triangle
      else if a + b - c < 0 \<or> a + c - b < 0 \<or> b + c - a < 0 then Inr 0
      else Inr (Delta a b c))"

text \<open>The sum of the Racah coefficient over \<open>k\<close>, from
  \<open>max(a+b+e, c+d+e, a+c+f, b+d+f)\<close> to \<open>min(a+b+c+d, a+d+e+f, b+c+e+f)\<close>.\<close>

definition racah_sum :: "rat \<Rightarrow> rat \<Rightarrow> rat \<Rightarrow> rat \<Rightarrow> rat \<Rightarrow> rat \<Rightarrow> rat" where
  "racah_sum a b c d e f =
     (\<Sum>k\<leftarrow>[py_int (max (max (max (a + b + e) (c + d + e)) (a + c + f)) (b + d + f)) ..
              py_int (min (min (a + b + c + d) (a + d + e + f)) (b + c + e + f))].
        (- 1) powi k * factorial (of_int k + 1) /
        (factorial (of_int k - a - b - e) * factorial (of_int k - c - d - e) *
         factorial (of_int k - a - c - f) * factorial (of_int k - b - d - f) *
         factorial (a + b + c + d - of_int k) * factorial (a + d + e + f - of_int k) *
         factorial (b + c + e + f - of_int k)))"

text \<open>What \<open>racah\<close> raises or returns, as the specification describes it: the prefactor
  is the product of the four Delta coefficients, the result is 0 when the prefactor is,
  and otherwise the prefactor times the sum times \<open>(-1)^(a+b+c+d)\<close>.\<close>

definition racah_result :: "rat \<Rightarrow> rat \<Rightarrow> rat \<Rightarrow> rat \<Rightarrow> rat \<Rightarrow> rat \<Rightarrow> error + real" where
  "racah_result a b c d e f =
     bind_e (big_delta_coeff_result a b e) (\<lambda>d1.
     bind_e (big_delta_coeff_result c d e) (\<lambda>d2.
     bind_e (big_delta_coeff_result a c f) (\<lambda>d3.
     bind_e (big_delta_coeff_result b d f) (\<lambda>d4.
     if d1 * d2 * d3 * d4 = 0 then Inr 0
     else Inr (d1 * d2 * d3 * d4 * of_rat (racah_sum a b c d e f) *
               (- 1) powi py_int (a + b + c + d))))))"

text \<open>The Gaunt coefficient of integer degrees and orders, with \<open>L = (l1+l2+l3)/2\<close>:
  \<open>sqrt(radicand) * prefac * sum * (-1)^(L+l3+m1-m2)\<close>.\<close>

definition gaunt_radicand :: "int \<Rightarrow> int \<Rightarrow> int \<Rightarrow> int \<Rightarrow> int \<Rightarrow> int \<Rightarrow> real" where
  "gaunt_radicand l1 l2 l3 m1 m2 m3 =
     of_int ((2 * l1 + 1) * (2 * l2 + 1) * (2 * l3 + 1)) *
     fact (nat (l1 - m1)) * fact (nat (l1 + m1)) * fact (nat (l2 - m2)) * fact (nat (l2 + m2)) *
     fact (nat (l3 - m3)) * fact (nat (l3 + m3)) / (4 * pi)"

definition gaunt_prefac :: "int \<Rightarrow> int \<Rightarrow> int \<Rightarrow> rat" where
  "gaunt_prefac l1 l2 l3 =
     (let L = (l1 + l2 + l3) div 2
      in fact (nat L) * fact (nat (l2 - l1 + l3)) * fact (nat (l1 - l2 + l3)) * fact (nat (l1 + l2 - l3)) /
         (fact (nat (2 * L + 1)) * fact (nat (L - l1)) * fact (nat (L - l2)) * fact (nat (L - l3))))"

definition gaunt_sum :: "int \<Rightarrow> int \<Rightarrow> int \<Rightarrow> int \<Rightarrow> int \<Rightarrow> rat" where
  "gaunt_sum l1 l2 l3 m1 m2 =
     (\<Sum>i\<leftarrow>[max (max (- l3 + l1 + m2) (- l3 + l2 - m1)) 0 .. min (min (l2 + m2) (l1 - m1)) (l1 + l2 - l3)].
        (- 1) powi i /
        (fact (nat i) * fact (nat (i + l3 - l1 - m2)) * fact (nat (l2 + m2 - i)) *
         fact (nat (l1 - i - m1)) * fact (nat (i + l3 - l2 + m1)) * fact (nat (l1 + l2 - l3 - i))))"

definition gaunt_formula :: "int \<Rightarrow> int \<Rightarrow> int \<Rightarrow> int \<Rightarrow> int \<Rightarrow> int \<Rightarrow> real" where
  "gaunt_formula l1 l2 l3 m1 m2 m3 =
     sqrt (gaunt_radicand l1 l2 l3 m1 m2 m3) * of_rat (gaunt_prefac l1 l2 l3) *
     of_rat (gaunt_sum l1 l2 l3 m1 m2) * (- 1) powi ((l1 + l2 + l3) div 2 + l3 + m1 - m2)"

text \<open>What \<open>wigner_3j\<close> returns for arguments that pass the validation and have every
  \<open>j_i - m_i\<close> an integer: 0 when a selection rule fails, the value of the formula
  otherwise.\<close>

definition wigner_3j_value :: "rat \<Rightarrow> rat \<Rightarrow> rat \<Rightarrow> rat \<Rightarrow> rat \<Rightarrow> rat \<Rightarrow> real" where
  "wigner_3j_value j1 j2 j3 m1 m2 m3 =
     (if m1 + m2 + m3 = 0 \<and> 0 \<le> j1 + j2 - j3 \<and> 0 \<le> j1 - j2 + j3 \<and> 0 \<le> - j1 + j2 + j3 \<and>
         \<bar>m1\<bar> \<le> j1 \<and> \<bar>m2\<bar> \<le> j2 \<and> \<bar>m3\<bar> \<le> j3
      then wigner_3j_formula j1 j2 j3 m1 m2 m3 else 0)"

text \<open>The binomial coefficient at an integer, 0 below 0, and the sum over \<open>k\<close> of
  \<open>wigner_3j\<close> as an alternating sum of products of three binomial coefficients, with
  \<open>n3 = j1 + j2 - j3\<close>, \<open>n2 = j1 - j2 + j3\<close>, \<open>n1 = - j1 + j2 + j3\<close>, \<open>p = j1 - m1\<close> and
  \<open>q = j2 + m2\<close>; the second form is the first with the columns exchanged.\<close>

definition bc :: "nat \<Rightarrow> int \<Rightarrow> int" where
  "bc n k = (if k < 0 then 0 else int (n choose nat k))"

definition triple_sum :: "nat \<Rightarrow> nat \<Rightarrow> nat \<Rightarrow> int \<Rightarrow> int \<Rightarrow> int" where
  "triple_sum n1 n2 n3 p q =
     (\<Sum>k\<le>n3. (- 1) ^ k * bc n3 (int k) * bc n2 (p - int k) * bc n1 (q - int k))"

definition triple_sum' :: "nat \<Rightarrow> nat \<Rightarrow> nat \<Rightarrow> int \<Rightarrow> int \<Rightarrow> int" where
  "triple_sum' n1 n2 n3 p q =
     (\<Sum>k\<le>n1. (- 1) ^ k * bc n1 (int k) * bc n3 (q - int k) * bc n2 (p - q + int k))"

text \<open>The radicand of the Delta coefficient, a rational number.\<close>

definition Delta_radicand :: "rat \<Rightarrow> rat \<Rightarrow> rat \<Rightarrow> rat" where
  "Delta_radicand a b c =
     factorial (a + b - c) * factorial (a + c - b) * factorial (b + c - a) / factorial (a + b + c + 1)"

text \<open>What \<open>_big_delta_coeff\<close> raises or returns for a given \<open>prec\<close>.\<close>

definition big_delta_coeff_prec_result ::
  "'f numerics \<Rightarrow> rat \<Rightarrow> rat \<Rightarrow> rat \<Rightarrow> nat option \<Rightarrow> error + 'f num" where
  "big_delta_coeff_prec_result N a b c prec =
     (if \<not> (is_integral (a + b - c) \<and> is_integral (a + c - b) \<and> is_integral (b + c - a))
      then Inl ValueError_triangle
      else if a + b - c < 0 \<or> a + c - b < 0 \<or> b + c - a < 0 then Inr (Exact 0)
      else Inr (sage_sqrt_prec N (Delta_radicand a b c) prec))"

text \<open>What \<open>racah\<close> raises or returns for a given \<open>prec\<close>: the prefactor is the product of
  the four Delta coefficients, the result is 0 when the prefactor is, and otherwise the
  prefactor times the sum times \<open>(-1)^(a+b+c+d)\<close>.\<close>

definition racah_prec_result ::
  "'f numerics \<Rightarrow> rat \<Rightarrow> rat \<Rightarrow> rat \<Rightarrow> rat \<Rightarrow> rat \<Rightarrow> rat \<Rightarrow> nat option \<Rightarrow> error + 'f num" where
  "racah_prec_result N a b c d e f prec =
     bind_e (big_delta_coeff_prec_result N a b e prec) (\<lambda>d1.
     bind_e (big_delta_coeff_prec_result N c d e prec) (\<lambda>d2.
     bind_e (big_delta_coeff_prec_result N a c f prec) (\<lambda>d3.
     bind_e (big_delta_coeff_prec_result N b d f prec) (\<lambda>d4.
     if num_is_zero N (num_mul N (num_mul N (num_mul N d1 d2) d3) d4) then Inr (Exact 0)
     else Inr (num_mul N
                (num_mul N (num_mul N (num_mul N (num_mul N d1 d2) d3) d4)
                   (Exact (of_rat (racah_sum a b c d e f))))
                (Exact ((- 1) powi py_int (a + b + c + d))))))))"

text \<open>The one property of the inexact arithmetic that a theorem below asks for: a product
  with a zero factor is zero.\<close>

definition zero_absorbing :: "'f numerics \<Rightarrow> bool" where
  "zero_absorbing N \<longleftrightarrow>
     (\<forall>x y. num_is_zero N x \<or> num_is_zero N y \<longrightarrow> num_is_zero N (num_mul N x y))"

text \<open>The sum of the results \<open>t k\<close> over a list of \<open>k\<close>, added from left to right; the first
  \<open>t k\<close> that is an error is the result.\<close>

fun sum_results ::
  "'f numerics \<Rightarrow> (int \<Rightarrow> error + 'f num) \<Rightarrow> int list \<Rightarrow> 'f num \<Rightarrow> error + 'f num" where
  "sum_results N t [] sumres = Inr sumres"
| "sum_results N t (k # ks) sumres = bind_e (t k) (\<lambda>x. sum_results N t ks (num_add N sumres x))"

text \<open>\<open>(2k+1) * R1 * R2 * R3\<close> for three results of \<open>racah\<close>, the first error among them
  otherwise.\<close>

definition wigner_9j_summand ::
  "'f numerics \<Rightarrow> int \<Rightarrow> error + 'f num \<Rightarrow> error + 'f num \<Rightarrow> error + 'f num \<Rightarrow> error + 'f num" where
  "wigner_9j_summand N k R1 R2 R3 =
     bind_e R1 (\<lambda>r1. bind_e R2 (\<lambda>r2. bind_e R3 (\<lambda>r3.
       Inr (num_mul N (num_mul N (num_mul N (Exact (of_int (2 * k + 1))) r1) r2) r3))))"

text \<open>An instance of the inexact arithmetic, to evaluate examples with a precision on: no
  operation rounds, an inexact number is the real number computed. (It is not the
  arithmetic of Sage, which rounds.)\<close>

definition num_value :: "real num \<Rightarrow> real" where
  "num_value x = (case x of Exact a \<Rightarrow> a | Inexact f \<Rightarrow> f)"

definition unrounded :: "real numerics" where
  "unrounded =
     \<lparr>sqrt_prec = (\<lambda>x p. Inexact (sqrt (of_rat x))),
      py_float = of_int,
      mul_inexact = (\<lambda>x y. num_value x * num_value y),
      add_inexact = (\<lambda>x y. num_value x + num_value y),
      is_zero_inexact = (\<lambda>f. f = 0)\<rparr>"

subsection \<open>Arithmetic of the primitives\<close>

lemma py_int_of_int: "py_int (of_int n) = n"
  by (simp add: py_int_def)

lemma is_integral_of_int: "is_integral (of_int n)"
  by (simp add: is_integral_def)

lemma is_integral_of_nat: "is_integral (of_nat n)"
  using is_integral_of_int [of "int n"] by simp

lemma is_integralE: "is_integral x \<Longrightarrow> (\<And>n. x = of_int n \<Longrightarrow> P) \<Longrightarrow> P"
  unfolding is_integral_def by metis

lemma is_integral_py_int: "is_integral x \<longleftrightarrow> of_int (py_int x) = x"
proof
  assume "is_integral x"
  then show "of_int (py_int x) = x"
    by (auto elim!: is_integralE simp: py_int_of_int)
next
  assume "of_int (py_int x) = x"
  then have "x = of_int (py_int x)" by simp
  then show "is_integral x"
    using is_integral_of_int by metis
qed

lemma to_Integer_of_int: "to_Integer (of_int n) = Inr n"
  by (simp add: to_Integer_def is_integral_of_int)

lemma length_factorials: "length (factorials n) = n"
  by (simp add: factorials_def)

lemma nth_factorials: "i < n \<Longrightarrow> factorials n ! i = fact i"
  by (simp add: factorials_def)

lemma factorials_Suc: "factorials (Suc n) = factorials n @ [fact n]"
  by (simp add: factorials_def)

lemma take_factorials: "take k (factorials n) = factorials (min k n)"
proof (cases "k \<le> n")
  case True
  then have "take k [0..<n] = [0..<k]"
    using take_upt [of 0 k n] by simp
  then show ?thesis
    using True by (simp add: factorials_def take_map min_absorb1)
next
  case False
  then show ?thesis
    by (simp add: factorials_def take_map min_absorb2)
qed

lemma py_index_factorials:
  "0 \<le> i \<Longrightarrow> i < int n \<Longrightarrow> py_index (factorials n) i = Inr (fact (nat i))"
  by (simp add: py_index_def length_factorials nth_factorials)

subsection \<open>The loop of the cache\<close>

lemma calc_factlist_loop_factorials:
  "0 < n \<Longrightarrow>
   calc_factlist_loop [int n .. int n + int k - 1] (factorials n) = (Inr (), factorials (n + k))"
proof (induction k arbitrary: n)
  case 0
  then show ?case by simp
next
  case (Suc k)
  have e1: "int n + 1 = int (Suc n)"
    by simp
  have e2: "int n + int (Suc k) - 1 = int (Suc n) + int k - 1"
    by simp
  have "[int n .. int (Suc n) + int k - 1] = int n # [int n + 1 .. int (Suc n) + int k - 1]"
    by (rule upto_rec1) simp
  then have range: "[int n .. int (Suc n) + int k - 1] = int n # [int (Suc n) .. int (Suc n) + int k - 1]"
    by (simp only: e1)
  have read: "py_index (factorials n) (int n - 1) = Inr (fact (n - 1))"
    using Suc.prems py_index_factorials [of "int n - 1" n] by (simp add: nat_diff_distrib')
  have step: "factorials n @ [fact (n - 1) * int n] = factorials (Suc n)"
    using Suc.prems by (cases n) (simp_all add: factorials_Suc mult.commute)
  have "calc_factlist_loop [int n .. int (Suc n) + int k - 1] (factorials n) =
          calc_factlist_loop [int (Suc n) .. int (Suc n) + int k - 1] (factorials (Suc n))"
    by (simp only: range calc_factlist_loop.simps read step sum.case)
  also have "\<dots> = (Inr (), factorials (Suc n + k))"
    by (rule Suc.IH) simp
  finally show ?case
    by (simp only: e2 add_Suc add_Suc_right)
qed

lemma calc_factlist_factorials:
  assumes "0 < m"
  shows "calc_factlist (of_nat n) (factorials m) =
           (Inr (factorials (Suc n)), factorials (max m (Suc n)))"
proof (cases "m \<le> n")
  case True
  then obtain k where k: "Suc n = m + k"
    using le_Suc_ex le_SucI by blast
  have stop: "to_Integer (of_nat n + 1) = Inr (int n + 1)"
    using to_Integer_of_int [of "int n + 1"] by simp
  have this_n: "to_Integer (of_nat n) = Inr (int n)"
    using to_Integer_of_int [of "int n"] by simp
  have "int m + int k - 1 = int n"
    using k by linarith
  then have loop: "calc_factlist_loop [int m .. int n] (factorials m) = (Inr (), factorials (Suc n))"
    using calc_factlist_loop_factorials [OF assms, of k] by (simp only: k)
  have "max m (Suc n) = Suc n"
    using True by simp
  then show ?thesis
    using True loop
    by (simp add: calc_factlist_def length_factorials stop this_n py_slice_to_def
        take_factorials nat_add_distrib del: upto.simps)
next
  case False
  have this_n: "to_Integer (of_nat n) = Inr (int n)"
    using to_Integer_of_int [of "int n"] by simp
  have "max m (Suc n) = m" "min (Suc n) m = Suc n"
    using False by simp_all
  then show ?thesis
    using False
    by (simp add: calc_factlist_def length_factorials this_n py_slice_to_def
        take_factorials nat_add_distrib)
qed

lemma is_integral_add_one: "is_integral (x + 1) \<longleftrightarrow> is_integral x"
  by (simp add: is_integral_def)

lemma snd_calc_factlist_factorials:
  assumes "0 < m"
  shows "snd (calc_factlist nn (factorials m)) =
           factorials (if of_nat m \<le> nn \<and> is_integral nn then Suc (nat \<lfloor>nn\<rfloor>) else m)"
proof (cases "of_nat m \<le> nn")
  case False
  then show ?thesis
    by (simp add: calc_factlist_def length_factorials split: sum.split)
next
  case le: True
  show ?thesis
  proof (cases "is_integral nn")
    case False
    then show ?thesis
      using le by (simp add: calc_factlist_def length_factorials to_Integer_def is_integral_add_one)
  next
    case True
    then obtain k where k: "nn = of_int k"
      by (rule is_integralE)
    with le have "0 \<le> k" "int m \<le> k"
      using assms by simp_all
    then have nn: "nn = of_nat (nat k)" "m \<le> nat k"
      using k by simp_all
    have "snd (calc_factlist (of_nat (nat k)) (factorials m)) = factorials (max m (Suc (nat k)))"
      by (simp add: calc_factlist_factorials [OF assms])
    moreover have "max m (Suc (nat k)) = Suc (nat k)"
      using nn(2) by simp
    ultimately show ?thesis
      using le True k nn(1) by simp
  qed
qed

lemma reachable_factorials: "reachable fl \<Longrightarrow> \<exists>m>0. fl = factorials m"
proof (induction rule: reachable.induct)
  case init
  have "Factlist_init = factorials (Suc 0)"
    by (simp add: Factlist_init_def factorials_def)
  then show ?case by blast
next
  case (call fl nn)
  then obtain m where m: "0 < m" "fl = factorials m"
    by blast
  show ?case
    unfolding m(2) snd_calc_factlist_factorials [OF m(1)] using m(1) by auto
qed

subsection \<open>The invariant of the cache\<close>

text \<open>
  C10. \<open>_Factlist\<close> always holds \<open>i!\<close> at index \<open>i\<close>. From any value the list can take,
  \<open>_calc_factlist(n)\<close> for a natural number \<open>n\<close> returns \<open>[0!, ..., n!]\<close>; afterwards the
  list has an entry for every index up to \<open>n\<close>, index \<open>i\<close> holds \<open>i!\<close>, each entry the call
  added is the entry before it times its index, the entries that were there are the
  first entries still (nothing is changed or removed), and a second call with the same
  or a smaller \<open>n\<close> leaves the list as it is.
\<close>

theorem calc_factlist_invariant:
  assumes "reachable fl"
  shows "fst (calc_factlist (of_nat n) fl) = Inr (map fact [0..<Suc n]) \<and>
         (let fl' = snd (calc_factlist (of_nat n) fl) in
            length fl' = max (length fl) (Suc n) \<and>
            (\<forall>i<length fl'. fl' ! i = fact i) \<and>
            (\<forall>i. length fl \<le> i \<and> i < length fl' \<longrightarrow> fl' ! i = fl' ! (i - 1) * int i) \<and>
            take (length fl) fl' = fl \<and>
            (\<forall>k\<le>n. snd (calc_factlist (of_nat k) fl') = fl'))"
proof -
  obtain m where m: "0 < m" "fl = factorials m"
    using reachable_factorials [OF assms] by blast
  define M where "M = max m (Suc n)"
  have call: "calc_factlist (of_nat n) fl = (Inr (factorials (Suc n)), factorials M)"
    unfolding m(2) M_def by (rule calc_factlist_factorials [OF m(1)])
  have M: "0 < M" "m \<le> M" "Suc n \<le> M"
    by (simp_all add: M_def)
  have new: "factorials M ! i = factorials M ! (i - 1) * int i" if "m \<le> i" "i < M" for i
  proof -
    have "0 < i"
      using that(1) m(1) by simp
    then obtain j where "i = Suc j"
      by (cases i) simp_all
    then show ?thesis
      using that(2) by (simp add: nth_factorials mult.commute)
  qed
  have again: "snd (calc_factlist (of_nat k) (factorials M)) = factorials M" if "k \<le> n" for k
  proof -
    have "max M (Suc k) = M"
      using that M(3) by simp
    then show ?thesis
      by (simp add: calc_factlist_factorials [OF M(1)])
  qed
  have kept: "take (length fl) (factorials M) = fl"
    using M(2) by (simp add: m(2) length_factorials take_factorials min_absorb1)
  have len: "length (factorials M) = max (length fl) (Suc n)"
    by (simp add: m(2) length_factorials M_def)
  have ret: "factorials (Suc n) = map fact [0..<Suc n]"
    by (simp add: factorials_def)
  have vals: "\<forall>i<length (factorials M). factorials M ! i = fact i"
    by (simp add: length_factorials nth_factorials)
  have new': "\<forall>i. length fl \<le> i \<and> i < length (factorials M) \<longrightarrow>
                factorials M ! i = factorials M ! (i - 1) * int i"
    using new by (simp add: m(2) length_factorials)
  have again': "\<forall>k\<le>n. snd (calc_factlist (of_nat k) (factorials M)) = factorials M"
    using again by blast
  show ?thesis
    unfolding call Let_def fst_conv snd_conv
    using ret len vals new' kept again' by blast
qed

theorem calc_factlist_invariant_witness:
  "reachable Factlist_init \<and>
   fst (calc_factlist (of_nat 3) Factlist_init) = Inr [1, 1, 2, 6] \<and>
   length (snd (calc_factlist (of_nat 3) Factlist_init)) = 4"
proof -
  have "[0..<Suc 3] = [0, 1, 2, 3]"
    by (simp add: upt_rec)
  then have "map fact [0..<Suc 3] = [1, 1, 2, 6 :: int]"
    by (simp add: fact_numeral)
  moreover have "reachable Factlist_init"
    by (rule reachable.init)
  ultimately show ?thesis
    using calc_factlist_invariant [OF reachable.init, of 3]
    by (simp add: Let_def Factlist_init_def)
qed

subsection \<open>Running a computation on a table of factorials\<close>


lemma bind_c_apply:
  "bind_c f g fl = (case f fl of (Inl e, fl') \<Rightarrow> (Inl e, fl') | (Inr x, fl') \<Rightarrow> g x fl')"
  by (simp add: bind_c_def)

lemma return_c_apply: "return_c x fl = (Inr x, fl)"
  by (simp add: return_c_def)

lemma raise_c_apply: "raise_c e fl = (Inl e, fl)"
  by (simp add: raise_c_def)

lemma read_c_apply: "read_c r fl = (r fl, fl)"
  by (simp add: read_c_def)

lemma bind_e_Inr: "bind_e (Inr x) g = g x"
  by (simp add: bind_e_def)

lemma bind_e_Inl: "bind_e (Inl e) g = Inl e"
  by (simp add: bind_e_def)

lemma Factlist_prod_factorials:
  "\<forall>i\<in>set is. 0 \<le> i \<and> i < int m \<Longrightarrow>
   Factlist_prod (factorials m) is = Inr (prod_list (map (\<lambda>i. fact (nat i)) is))"
proof (induction "is")
  case Nil
  show ?case by simp
next
  case (Cons i "is")
  have "py_index (factorials m) i = Inr (fact (nat i))"
    using Cons.prems by (simp add: py_index_factorials)
  moreover have "Factlist_prod (factorials m) is = Inr (prod_list (map (\<lambda>i. fact (nat i)) is))"
    using Cons.prems by (intro Cons.IH) simp
  ultimately show ?case
    by (simp add: bind_e_Inr)
qed

lemma sum_loop_Inr:
  "\<forall>i\<in>set is. term i = Inr (f i) \<Longrightarrow>
   sum_loop term is acc = Inr (acc + sum_list (map f is))"
proof (induction "is" arbitrary: acc)
  case Nil
  show ?case by simp
next
  case (Cons i "is")
  have "term i = Inr (f i)"
    using Cons.prems by simp
  moreover have "sum_loop term is (acc + f i) = Inr (acc + f i + sum_list (map f is))"
    using Cons.prems by (intro Cons.IH) simp
  ultimately show ?case
    by (simp add: bind_e_Inr add.assoc)
qed

lemma calc_factlist_of_int:
  assumes "0 < m" "0 \<le> n"
  shows "calc_factlist (of_int n) (factorials m) =
           (Inr (factorials (Suc (nat n))), factorials (max m (Suc (nat n))))"
proof -
  have "(of_int n :: rat) = of_nat (nat n)"
    using assms(2) by simp
  then show ?thesis
    using calc_factlist_factorials [OF assms(1), of "nat n"] by (simp only:)
qed

lemma py_div_of_int: "d \<noteq> 0 \<Longrightarrow> py_div (of_int n) (of_int d) = Inr (of_int n / of_int d)"
  by (simp add: py_div_def)

lemma big_delta_coeff_factorials:
  assumes m: "0 < m"
    and p: "aa + bb - cc = of_int p" and q: "aa + cc - bb = of_int q" and r: "bb + cc - aa = of_int r"
    and nonneg: "0 \<le> p" "0 \<le> q" "0 \<le> r"
  shows "big_delta_coeff aa bb cc (factorials m) =
           (Inr (sqrt (of_int (fact (nat p) * fact (nat q) * fact (nat r)) / of_int (fact (nat (p + q + r + 1))))),
            factorials (max m (nat (p + q + r) + 2)))"
proof -
  have s: "aa + bb + cc + 1 = of_int (p + q + r + 1)"
    using p q r by simp
  define M where "M = max m (nat (p + q + r) + 2)"
  have mf: "max (max (max (of_int p) (of_int q)) (of_int r)) (of_int (p + q + r + 1)) = (of_int (p + q + r + 1) :: rat)"
    using nonneg by (simp add: max_def)
  have cf: "calc_factlist (of_int (p + q + r + 1)) (factorials m) =
              (Inr (factorials (Suc (nat (p + q + r + 1)))), factorials M)"
    using calc_factlist_of_int [OF m, of "p + q + r + 1"] nonneg
    by (simp add: M_def nat_add_distrib)
  have M: "p + q + r + 1 < int M"
    using nonneg by (simp add: M_def)
  have "\<forall>i\<in>set [p, q, r]. 0 \<le> i \<and> i < int M"
    using M nonneg by simp
  then have "Factlist_prod (factorials M) [p, q, r] = Inr (prod_list (map (\<lambda>i. fact (nat i)) [p, q, r]))"
    by (rule Factlist_prod_factorials)
  then have num: "Factlist_prod (factorials M) [p, q, r] = Inr (fact (nat p) * fact (nat q) * fact (nat r))"
    by (simp add: mult.assoc)
  have den: "py_index (factorials M) (p + q + r + 1) = Inr (fact (nat (p + q + r + 1)))"
    using py_index_factorials [of "p + q + r + 1" M] M nonneg by simp
  have dv: "py_div (of_int (fact (nat p) * fact (nat q) * fact (nat r))) (of_int (fact (nat (p + q + r + 1)))) =
     Inr (of_int (fact (nat p) * fact (nat q) * fact (nat r)) / of_int (fact (nat (p + q + r + 1))))"
    by (rule py_div_of_int) simp
  have chk: "\<not> (of_int p :: rat) < 0" "\<not> (of_int q :: rat) < 0" "\<not> (of_int r :: rat) < 0"
    using nonneg by simp_all
  show ?thesis
    unfolding big_delta_coeff_def Let_def
    unfolding p q r s py_int_of_int mf M_def [symmetric]
    by (simp only: chk if_False not_not refl not_True_eq_False bind_c_apply cf read_c_apply num den dv
        prod.case sum.case return_c_apply sage_sqrt_def of_rat_divide of_rat_of_int_eq)
qed

lemma factorial_of_int: "factorial (of_int n) = fact (nat n)"
  by (simp add: factorial_def py_int_of_int)

lemma factorial_pos: "0 < (factorial x :: 'a :: {semiring_char_0, linordered_semidom})"
  by (simp add: factorial_def)

lemma factorial_nonzero: "(factorial x :: 'a :: {semiring_char_0, semiring_no_zero_divisors}) \<noteq> 0"
  by (simp add: factorial_def)

lemma Delta_pos: "0 < Delta a b c"
  unfolding Delta_def by (simp add: factorial_pos)

lemma big_delta_coeff_Delta:
  assumes m: "0 < m"
    and int: "is_integral (aa + bb - cc)" "is_integral (aa + cc - bb)" "is_integral (bb + cc - aa)"
    and nonneg: "0 \<le> aa + bb - cc" "0 \<le> aa + cc - bb" "0 \<le> bb + cc - aa"
  shows "big_delta_coeff aa bb cc (factorials m) =
           (Inr (Delta aa bb cc), factorials (max m (nat (py_int (aa + bb + cc)) + 2)))"
proof -
  obtain p q r where p: "aa + bb - cc = of_int p" and q: "aa + cc - bb = of_int q"
    and r: "bb + cc - aa = of_int r"
    using int by (metis is_integralE)
  have nn: "0 \<le> p" "0 \<le> q" "0 \<le> r"
    using nonneg unfolding p q r by simp_all
  have s: "aa + bb + cc = of_int (p + q + r)"
    using p q r by simp
  have s1: "aa + bb + cc + 1 = of_int (p + q + r + 1)"
    using p q r by simp
  have "Delta aa bb cc = sqrt (of_int (fact (nat p) * fact (nat q) * fact (nat r)) / of_int (fact (nat (p + q + r + 1))))"
    unfolding Delta_def p q r s1 factorial_of_int by simp
  moreover have "py_int (aa + bb + cc) = p + q + r"
    unfolding s by (rule py_int_of_int)
  ultimately show ?thesis
    using big_delta_coeff_factorials [OF m p q r nn] by simp
qed

subsection \<open>The Delta coefficient\<close>

text \<open>
  C8. \<open>_big_delta_coeff(aa, bb, cc)\<close> raises its \<open>ValueError\<close> exactly when one of
  \<open>aa+bb-cc\<close>, \<open>aa+cc-bb\<close>, \<open>bb+cc-aa\<close> is not an integer. When all three are integers
  it returns 0 exactly when one of them is negative, and otherwise it returns
  \<open>sqrt[(aa+bb-cc)! (aa+cc-bb)! (bb+cc-aa)! / (aa+bb+cc+1)!]\<close>.
\<close>

theorem big_delta_coeff_cases:
  assumes "reachable fl"
  shows "(fst (big_delta_coeff aa bb cc fl) = Inl ValueError_triangle \<longleftrightarrow>
            \<not> (is_integral (aa + bb - cc) \<and> is_integral (aa + cc - bb) \<and> is_integral (bb + cc - aa))) \<and>
         (is_integral (aa + bb - cc) \<and> is_integral (aa + cc - bb) \<and> is_integral (bb + cc - aa) \<longrightarrow>
            (fst (big_delta_coeff aa bb cc fl) = Inr 0 \<longleftrightarrow>
               aa + bb - cc < 0 \<or> aa + cc - bb < 0 \<or> bb + cc - aa < 0) \<and>
            (0 \<le> aa + bb - cc \<and> 0 \<le> aa + cc - bb \<and> 0 \<le> bb + cc - aa \<longrightarrow>
               fst (big_delta_coeff aa bb cc fl) = Inr (Delta aa bb cc)))"
proof -
  obtain m where m: "0 < m" "fl = factorials m"
    using reachable_factorials [OF assms] by blast
  let ?int = "is_integral (aa + bb - cc) \<and> is_integral (aa + cc - bb) \<and> is_integral (bb + cc - aa)"
  let ?neg = "aa + bb - cc < 0 \<or> aa + cc - bb < 0 \<or> bb + cc - aa < 0"
  consider (bad) "\<not> ?int" | (zero) "?int" "?neg" | (ok) "?int" "\<not> ?neg"
    by blast
  then show ?thesis
  proof cases
    case bad
    then have "big_delta_coeff aa bb cc fl = (Inl ValueError_triangle, fl)"
      by (auto simp add: big_delta_coeff_def is_integral_py_int raise_c_apply)
    then have "fst (big_delta_coeff aa bb cc fl) = Inl ValueError_triangle"
      by simp
    then show ?thesis
      using bad by blast
  next
    case zero
    then have "big_delta_coeff aa bb cc fl = (Inr 0, fl)"
      by (auto simp add: big_delta_coeff_def is_integral_py_int return_c_apply)
    then have "fst (big_delta_coeff aa bb cc fl) = Inr 0"
      "fst (big_delta_coeff aa bb cc fl) \<noteq> Inl ValueError_triangle"
      by simp_all
    moreover have "\<not> (0 \<le> aa + bb - cc \<and> 0 \<le> aa + cc - bb \<and> 0 \<le> bb + cc - aa)"
      using zero(2) by auto
    ultimately show ?thesis
      using zero by blast
  next
    case ok
    then have nonneg: "0 \<le> aa + bb - cc" "0 \<le> aa + cc - bb" "0 \<le> bb + cc - aa"
      by auto
    have "big_delta_coeff aa bb cc fl =
        (Inr (Delta aa bb cc), factorials (max m (nat (py_int (aa + bb + cc)) + 2)))"
      unfolding m(2) using ok(1) nonneg by (intro big_delta_coeff_Delta [OF m(1)]) simp_all
    moreover have "Delta aa bb cc \<noteq> 0"
      using Delta_pos [of aa bb cc] by simp
    ultimately have "fst (big_delta_coeff aa bb cc fl) = Inr (Delta aa bb cc)"
      "fst (big_delta_coeff aa bb cc fl) \<noteq> Inl ValueError_triangle"
      "fst (big_delta_coeff aa bb cc fl) \<noteq> Inr 0"
      by simp_all
    then show ?thesis
      using ok by blast
  qed
qed

theorem big_delta_coeff_cases_witness:
  "reachable Factlist_init \<and>
   fst (big_delta_coeff 1 1 1 Factlist_init) = Inr (sqrt (1 / 24)) \<and>
   fst (big_delta_coeff (1 / 2) 0 0 Factlist_init) = Inl ValueError_triangle \<and>
   fst (big_delta_coeff 1 1 3 Factlist_init) = Inr 0"
proof -
  have i1: "is_integral 1" "is_integral 3" "is_integral (- 1)"
    by (simp_all add: is_integral_def)
  have "\<lfloor>1 / 2 :: rat\<rfloor> = 0"
    by (simp add: floor_eq_iff)
  then have i2: "\<not> is_integral (1 / 2)"
    by (simp add: is_integral_def)
  have "factorial 1 = (1 :: real)" "factorial 4 = (24 :: real)"
    using factorial_of_int [of 1, where 'a = real] factorial_of_int [of 4, where 'a = real]
    by (simp_all add: fact_numeral)
  then have d: "Delta 1 1 1 = sqrt (1 / 24)"
    by (simp add: Delta_def)
  show ?thesis
    using big_delta_coeff_cases [OF reachable.init, of 1 1 1]
      big_delta_coeff_cases [OF reachable.init, of "1 / 2" 0 0]
      big_delta_coeff_cases [OF reachable.init, of 1 1 3]
    by (simp add: i1 i2 d reachable.init)
qed

subsection \<open>The computation of \<open>wigner_3j\<close>\<close>

lemma py_int_ge_0: "- 1 < x \<Longrightarrow> 0 \<le> py_int x"
  by (simp add: py_int_def ceiling_def)

lemma py_int_le: "x \<le> of_int k \<Longrightarrow> py_int x \<le> k"
  by (simp add: py_int_def floor_le_iff ceiling_le_iff)

lemma py_int_ge: "of_int k \<le> x \<Longrightarrow> k \<le> py_int x"
  by (simp add: py_int_def le_floor_iff le_ceiling_iff)

lemma py_int_le_self: "0 \<le> x \<Longrightarrow> of_int (py_int x) \<le> x"
  by (simp add: py_int_def)

lemma py_int_gt: "x - 1 < of_int (py_int x)"
  by (simp add: py_int_def) linarith

lemma neg1_pow_powi: "of_int (neg1_pow n) = ((- 1) powi n :: 'a :: field_char_0)"
proof (cases "0 \<le> n")
  case True
  then show ?thesis
    by (simp add: neg1_pow_def power_int_def even_nat_iff uminus_power_if)
next
  case False
  then have "even (nat (- n)) \<longleftrightarrow> even n"
    by (simp add: even_nat_iff)
  with False show ?thesis
    by (simp add: neg1_pow_def power_int_def uminus_power_if)
qed

lemma calc_factlist_TypeError:
  "\<not> is_integral nn \<Longrightarrow> calc_factlist nn fl = (Inl TypeError, fl)"
  by (simp add: calc_factlist_def to_Integer_def is_integral_add_one)

lemma wigner_3j_term_factorials:
  assumes "\<forall>i\<in>set [ii, py_int (of_int ii + j_3 - j_1 - m_2), py_int (j_2 + m_2 - of_int ii),
             py_int (j_1 - of_int ii - m_1), py_int (of_int ii + j_3 - j_2 + m_1),
             py_int (j_1 + j_2 - j_3 - of_int ii)]. 0 \<le> i \<and> i < int M"
  shows "wigner_3j_term j_1 j_2 j_3 m_1 m_2 (factorials M) ii =
     Inr ((- 1) powi ii /
        (factorial (of_int ii) * factorial (of_int ii + j_3 - j_1 - m_2) * factorial (j_2 + m_2 - of_int ii) *
         factorial (j_1 - of_int ii - m_1) * factorial (of_int ii + j_3 - j_2 + m_1) *
         factorial (j_1 + j_2 - j_3 - of_int ii)))"
proof -
  let ?is = "[ii, py_int (of_int ii + j_3 - j_1 - m_2), py_int (j_2 + m_2 - of_int ii),
             py_int (j_1 - of_int ii - m_1), py_int (of_int ii + j_3 - j_2 + m_1),
             py_int (j_1 + j_2 - j_3 - of_int ii)]"
  let ?den = "prod_list (map (\<lambda>i. fact (nat i)) ?is) :: int"
  have prod: "Factlist_prod (factorials M) ?is = Inr ?den"
    using assms by (rule Factlist_prod_factorials)
  have "?den \<noteq> 0"
    by simp
  then have dv: "py_div (of_int (neg1_pow ii)) (of_int ?den) = Inr (of_int (neg1_pow ii) / of_int ?den)"
    by (rule py_div_of_int)
  have val: "(of_int ?den :: rat) =
         factorial (of_int ii) * factorial (of_int ii + j_3 - j_1 - m_2) * factorial (j_2 + m_2 - of_int ii) *
         factorial (j_1 - of_int ii - m_1) * factorial (of_int ii + j_3 - j_2 + m_1) *
         factorial (j_1 + j_2 - j_3 - of_int ii)"
    by (simp add: factorial_def py_int_of_int mult.assoc)
  show ?thesis
    unfolding wigner_3j_term_def prod bind_e_Inr dv
    by (simp only: val neg1_pow_powi)
qed

lemma wigner_3j_computed:
  assumes m: "0 < m"
    and vj: "is_integral (j_1 * 2)" "is_integral (j_2 * 2)" "is_integral (j_3 * 2)"
    and vm: "is_integral (m_1 * 2)" "is_integral (m_2 * 2)" "is_integral (m_3 * 2)"
    and msum: "m_1 + m_2 + m_3 = 0"
    and tri: "0 \<le> j_1 + j_2 - j_3" "0 \<le> j_1 - j_2 + j_3" "0 \<le> - j_1 + j_2 + j_3"
    and mb: "\<bar>m_1\<bar> \<le> j_1" "\<bar>m_2\<bar> \<le> j_2" "\<bar>m_3\<bar> \<le> j_3"
    and J: "j_1 + j_2 + j_3 = of_int J"
  shows "wigner_3j j_1 j_2 j_3 m_1 m_2 m_3 (factorials m) =
           (Inr (wigner_3j_formula j_1 j_2 j_3 m_1 m_2 m_3), factorials (max m (nat J + 2)))"
proof -
  define M where "M = max m (nat J + 2)"
  have jpos: "0 \<le> j_1" "0 \<le> j_2" "0 \<le> j_3"
    using tri by linarith+
  then have "(0 :: rat) \<le> of_int J"
    unfolding J [symmetric] by simp
  then have Jpos: "0 \<le> J"
    by simp
  have M: "J + 1 < int M"
    using Jpos by (simp add: M_def)
  have J1: "j_1 + j_2 + j_3 + 1 = of_int (J + 1)"
    using J by simp
  have mf: "max (max (max (j_1 + j_2 + j_3 + 1) (j_1 + \<bar>m_1\<bar>)) (j_2 + \<bar>m_2\<bar>)) (j_3 + \<bar>- m_3\<bar>) =
              of_int (J + 1)"
    unfolding J1 [symmetric] using tri mb by (simp add: max_def)
  have cf: "calc_factlist (of_int (J + 1)) (factorials m) =
              (Inr (factorials (Suc (nat (J + 1)))), factorials M)"
    using calc_factlist_of_int [OF m, of "J + 1"] Jpos
    by (simp add: M_def nat_add_distrib)
  have idx: "0 \<le> py_int x \<and> py_int x < int M" if "0 \<le> x" "x \<le> of_int J" for x
    using py_int_ge_0 [of x] py_int_le [of x J] that M by simp
  have le_J: "j_1 + j_2 - j_3 \<le> of_int J" "j_1 - j_2 + j_3 \<le> of_int J" "- j_1 + j_2 + j_3 \<le> of_int J"
    "j_1 - m_1 \<le> of_int J" "j_1 + m_1 \<le> of_int J" "j_2 - m_2 \<le> of_int J" "j_2 + m_2 \<le> of_int J"
    "j_3 - - m_3 \<le> of_int J" "j_3 + - m_3 \<le> of_int J"
    unfolding J [symmetric] using tri mb by linarith+
  have ge_0: "0 \<le> j_1 - m_1" "0 \<le> j_1 + m_1" "0 \<le> j_2 - m_2" "0 \<le> j_2 + m_2"
    "0 \<le> j_3 - - m_3" "0 \<le> j_3 + - m_3"
    using mb by linarith+
  let ?is = "[py_int (j_1 + j_2 - j_3), py_int (j_1 - j_2 + j_3), py_int (- j_1 + j_2 + j_3),
              py_int (j_1 - m_1), py_int (j_1 + m_1), py_int (j_2 - m_2),
              py_int (j_2 + m_2), py_int (j_3 - - m_3), py_int (j_3 + - m_3)]"
  let ?num = "prod_list (map (\<lambda>i. fact (nat i)) ?is) :: int"
  have "\<forall>i\<in>set ?is. 0 \<le> i \<and> i < int M"
    using idx [OF tri(1) le_J(1)] idx [OF tri(2) le_J(2)] idx [OF tri(3) le_J(3)]
      idx [OF ge_0(1) le_J(4)] idx [OF ge_0(2) le_J(5)] idx [OF ge_0(3) le_J(6)]
      idx [OF ge_0(4) le_J(7)] idx [OF ge_0(5) le_J(8)] idx [OF ge_0(6) le_J(9)]
    by simp
  then have num: "Factlist_prod (factorials M) ?is = Inr ?num"
    by (rule Factlist_prod_factorials)
  have den: "py_index (factorials M) (J + 1) = Inr (fact (nat (J + 1)))"
    using py_index_factorials [of "J + 1" M] M Jpos by simp
  have dv: "py_div (of_int ?num) (of_int (fact (nat (J + 1)))) =
              Inr (of_int ?num / of_int (fact (nat (J + 1))))"
    by (rule py_div_of_int) simp
  have pj1: "py_int (of_int J + 1) = J + 1"
    using py_int_of_int [of "J + 1"] by simp
  have rad: "of_int ?num / of_int (fact (nat (J + 1))) = wigner_3j_radicand j_1 j_2 j_3 m_1 m_2 (- m_3)"
    unfolding wigner_3j_radicand_def J1 by (simp add: factorial_def pj1 mult.assoc)
  define imin where "imin = py_int (max (max (- j_3 + j_1 + m_2) (- j_3 + j_2 - m_1)) 0)"
  define imax where "imax = py_int (min (min (j_2 + m_2) (j_1 - m_1)) (j_1 + j_2 - j_3))"
  let ?f = "\<lambda>k. (- 1) powi k /
        (factorial (of_int k) * factorial (of_int k + j_3 - j_1 - m_2) * factorial (j_2 + m_2 - of_int k) *
         factorial (j_1 - of_int k - m_1) * factorial (of_int k + j_3 - j_2 + m_1) *
         factorial (j_1 + j_2 - j_3 - of_int k)) :: rat"
  have tm: "wigner_3j_term j_1 j_2 j_3 m_1 m_2 (factorials M) ii = Inr (?f ii)"
    if ii: "ii \<in> set [imin .. imax]" for ii
  proof -
    have lo: "imin \<le> ii" and hi: "ii \<le> imax"
      using ii by simp_all
    have "0 \<le> min (min (j_2 + m_2) (j_1 - m_1)) (j_1 + j_2 - j_3)"
      using ge_0 tri by simp
    then have "of_int imax \<le> min (min (j_2 + m_2) (j_1 - m_1)) (j_1 + j_2 - j_3)"
      unfolding imax_def by (rule py_int_le_self)
    then have "of_int ii \<le> min (min (j_2 + m_2) (j_1 - m_1)) (j_1 + j_2 - j_3)"
      using hi by (meson of_int_le_iff order_trans)
    then have up: "of_int ii \<le> j_2 + m_2" "of_int ii \<le> j_1 - m_1" "of_int ii \<le> j_1 + j_2 - j_3"
      by simp_all
    have "max (max (- j_3 + j_1 + m_2) (- j_3 + j_2 - m_1)) 0 - 1 < of_int imin"
      unfolding imin_def by (rule py_int_gt)
    also have "(of_int imin :: rat) \<le> of_int ii"
      using lo by simp
    finally have "max (max (- j_3 + j_1 + m_2) (- j_3 + j_2 - m_1)) 0 - 1 < of_int ii" .
    then have dn: "- j_3 + j_1 + m_2 - 1 < of_int ii" "- j_3 + j_2 - m_1 - 1 < of_int ii" "(- 1 :: rat) < of_int ii"
      by simp_all
    have ii0: "0 \<le> ii"
      using dn(3) by linarith
    have bnd: "0 \<le> py_int x \<and> py_int x < int M" if "- 1 < x" "x \<le> j_1 + j_2 + j_3" for x
      using py_int_ge_0 [of x] py_int_le [of x J] that M by (simp add: J)
    have ii0r: "(0 :: rat) \<le> of_int ii"
      using ii0 by simp
    have ml: "- j_1 \<le> m_1" "m_1 \<le> j_1" "- j_2 \<le> m_2" "m_2 \<le> j_2"
      using mb by linarith+
    have b1: "0 \<le> py_int (of_int ii + j_3 - j_1 - m_2) \<and> py_int (of_int ii + j_3 - j_1 - m_2) < int M"
      by (rule bnd) (use dn up tri ml ii0r in linarith)+
    have b2: "0 \<le> py_int (j_2 + m_2 - of_int ii) \<and> py_int (j_2 + m_2 - of_int ii) < int M"
      by (rule bnd) (use dn up tri ml ii0r in linarith)+
    have b3: "0 \<le> py_int (j_1 - of_int ii - m_1) \<and> py_int (j_1 - of_int ii - m_1) < int M"
      by (rule bnd) (use dn up tri ml ii0r in linarith)+
    have b4: "0 \<le> py_int (of_int ii + j_3 - j_2 + m_1) \<and> py_int (of_int ii + j_3 - j_2 + m_1) < int M"
      by (rule bnd) (use dn up tri ml ii0r in linarith)+
    have b5: "0 \<le> py_int (j_1 + j_2 - j_3 - of_int ii) \<and> py_int (j_1 + j_2 - j_3 - of_int ii) < int M"
      by (rule bnd) (use dn up tri ml ii0r in linarith)+
    have "(of_int ii :: rat) \<le> of_int J"
      using up(3) jpos by (simp add: J [symmetric])
    then have b0: "0 \<le> ii \<and> ii < int M"
      using ii0 M by simp
    show ?thesis
      by (rule wigner_3j_term_factorials) (use b0 b1 b2 b3 b4 b5 in simp)
  qed
  then have "\<forall>ii\<in>set [imin .. imax]. wigner_3j_term j_1 j_2 j_3 m_1 m_2 (factorials M) ii = Inr (?f ii)"
    by blast
  then have "sum_loop (wigner_3j_term j_1 j_2 j_3 m_1 m_2 (factorials M)) [imin .. imax] 0 =
               Inr (0 + sum_list (map ?f [imin .. imax]))"
    by (rule sum_loop_Inr)
  then have loop: "sum_loop (wigner_3j_term j_1 j_2 j_3 m_1 m_2 (factorials M)) [imin .. imax] 0 =
               Inr (wigner_3j_sum j_1 j_2 j_3 m_1 m_2)"
    by (simp only: wigner_3j_sum_def imin_def imax_def add_0_left)
  have chk: "of_int (py_int (j_1 * 2)) = j_1 * 2" "of_int (py_int (j_2 * 2)) = j_2 * 2"
    "of_int (py_int (j_3 * 2)) = j_3 * 2" "of_int (py_int (m_1 * 2)) = m_1 * 2"
    "of_int (py_int (m_2 * 2)) = m_2 * 2" "of_int (py_int (m_3 * 2)) = m_3 * 2"
    using vj vm by (simp_all add: is_integral_py_int)
  have sel: "\<not> j_1 + j_2 - j_3 < 0" "\<not> j_1 - j_2 + j_3 < 0" "\<not> - j_1 + j_2 + j_3 < 0"
    "\<not> j_1 < \<bar>m_1\<bar>" "\<not> j_2 < \<bar>m_2\<bar>" "\<not> j_3 < \<bar>- m_3\<bar>"
    using tri mb by simp_all
  have fin: "sage_sqrt (wigner_3j_radicand j_1 j_2 j_3 m_1 m_2 (- m_3)) *
               of_rat (wigner_3j_sum j_1 j_2 j_3 m_1 m_2) * of_int (neg1_pow (py_int (j_1 - j_2 - m_3))) =
             wigner_3j_formula j_1 j_2 j_3 m_1 m_2 m_3"
    by (simp add: wigner_3j_formula_def sage_sqrt_def neg1_pow_powi)
  show ?thesis
    unfolding wigner_3j_def Let_def M_def [symmetric] imin_def [symmetric] imax_def [symmetric]
    apply (simp only: chk msum sel mf simp_thms if_False if_True)
    apply (simp only: bind_c_apply cf read_c_apply num J1 pj1 py_int_of_int den dv rad loop
        prod.case sum.case return_c_apply fin)
    done
qed

lemma wigner_3j_TypeError:
  assumes vj: "is_integral (j_1 * 2)" "is_integral (j_2 * 2)" "is_integral (j_3 * 2)"
    and vm: "is_integral (m_1 * 2)" "is_integral (m_2 * 2)" "is_integral (m_3 * 2)"
    and msum: "m_1 + m_2 + m_3 = 0"
    and tri: "0 \<le> j_1 + j_2 - j_3" "0 \<le> j_1 - j_2 + j_3" "0 \<le> - j_1 + j_2 + j_3"
    and mb: "\<bar>m_1\<bar> \<le> j_1" "\<bar>m_2\<bar> \<le> j_2" "\<bar>m_3\<bar> \<le> j_3"
    and J: "\<not> is_integral (j_1 + j_2 + j_3)"
  shows "wigner_3j j_1 j_2 j_3 m_1 m_2 m_3 fl = (Inl TypeError, fl)"
proof -
  have mf: "max (max (max (j_1 + j_2 + j_3 + 1) (j_1 + \<bar>m_1\<bar>)) (j_2 + \<bar>m_2\<bar>)) (j_3 + \<bar>- m_3\<bar>) =
              j_1 + j_2 + j_3 + 1"
    using tri mb by (simp add: max_def)
  have "\<not> is_integral (j_1 + j_2 + j_3 + 1)"
    using J by (simp add: is_integral_add_one)
  then have cf: "calc_factlist (j_1 + j_2 + j_3 + 1) fl = (Inl TypeError, fl)"
    by (rule calc_factlist_TypeError)
  have chk: "of_int (py_int (j_1 * 2)) = j_1 * 2" "of_int (py_int (j_2 * 2)) = j_2 * 2"
    "of_int (py_int (j_3 * 2)) = j_3 * 2" "of_int (py_int (m_1 * 2)) = m_1 * 2"
    "of_int (py_int (m_2 * 2)) = m_2 * 2" "of_int (py_int (m_3 * 2)) = m_3 * 2"
    using vj vm by (simp_all add: is_integral_py_int)
  have sel: "\<not> j_1 + j_2 - j_3 < 0" "\<not> j_1 - j_2 + j_3 < 0" "\<not> - j_1 + j_2 + j_3 < 0"
    "\<not> j_1 < \<bar>m_1\<bar>" "\<not> j_2 < \<bar>m_2\<bar>" "\<not> j_3 < \<bar>- m_3\<bar>"
    using tri mb by simp_all
  show ?thesis
    unfolding wigner_3j_def Let_def
    apply (simp only: chk msum sel mf simp_thms if_False if_True)
    apply (simp only: bind_c_apply cf prod.case sum.case)
    done
qed

lemma wigner_3j_ValueError_j:
  "\<not> (is_integral (j_1 * 2) \<and> is_integral (j_2 * 2) \<and> is_integral (j_3 * 2)) \<Longrightarrow>
   wigner_3j j_1 j_2 j_3 m_1 m_2 m_3 fl = (Inl ValueError_j, fl)"
  by (auto simp add: wigner_3j_def is_integral_py_int raise_c_apply)

lemma wigner_3j_ValueError_m:
  "is_integral (j_1 * 2) \<Longrightarrow> is_integral (j_2 * 2) \<Longrightarrow> is_integral (j_3 * 2) \<Longrightarrow>
   \<not> (is_integral (m_1 * 2) \<and> is_integral (m_2 * 2) \<and> is_integral (m_3 * 2)) \<Longrightarrow>
   wigner_3j j_1 j_2 j_3 m_1 m_2 m_3 fl = (Inl ValueError_m, fl)"
  by (auto simp add: wigner_3j_def is_integral_py_int raise_c_apply)

lemma wigner_3j_zero:
  assumes "is_integral (j_1 * 2)" "is_integral (j_2 * 2)" "is_integral (j_3 * 2)"
    and "is_integral (m_1 * 2)" "is_integral (m_2 * 2)" "is_integral (m_3 * 2)"
    and "m_1 + m_2 + m_3 \<noteq> 0 \<or> j_1 + j_2 - j_3 < 0 \<or> j_1 - j_2 + j_3 < 0 \<or> - j_1 + j_2 + j_3 < 0 \<or>
         j_1 < \<bar>m_1\<bar> \<or> j_2 < \<bar>m_2\<bar> \<or> j_3 < \<bar>m_3\<bar>"
  shows "wigner_3j j_1 j_2 j_3 m_1 m_2 m_3 fl = (Inr 0, fl)"
proof -
  have chk: "of_int (py_int (j_1 * 2)) = j_1 * 2" "of_int (py_int (j_2 * 2)) = j_2 * 2"
    "of_int (py_int (j_3 * 2)) = j_3 * 2" "of_int (py_int (m_1 * 2)) = m_1 * 2"
    "of_int (py_int (m_2 * 2)) = m_2 * 2" "of_int (py_int (m_3 * 2)) = m_3 * 2"
    using assms(1-6) by (simp_all add: is_integral_py_int)
  show ?thesis
    unfolding wigner_3j_def Let_def
    apply (simp only: chk simp_thms if_False)
    using assms(7) by (auto simp add: return_c_apply)
qed

lemma mult_2_commute: "is_integral (2 * x) \<longleftrightarrow> is_integral (x * 2)"
  by (simp add: mult.commute)

subsection \<open>Validation and selection rules of \<open>wigner_3j\<close>\<close>

text \<open>
  C2. \<open>wigner_3j\<close> raises the error about its \<open>j\<close> values exactly when \<open>2 * j_i\<close> is not an
  integer for some \<open>i\<close>. When the \<open>j\<close> values are valid it raises the error about its \<open>m\<close>
  values exactly when \<open>2 * m_i\<close> is not an integer for some \<open>i\<close>. When both checks pass
  and \<open>m_1 + m_2 + m_3\<close> is not 0, or one of \<open>j_1+j_2-j_3\<close>, \<open>j_1-j_2+j_3\<close>, \<open>-j_1+j_2+j_3\<close>
  is negative, or \<open>|m_i| > j_i\<close> for some \<open>i\<close>, it returns 0 and leaves the cache as it was.
\<close>

theorem wigner_3j_validation:
  assumes "reachable fl"
  shows "(fst (wigner_3j j_1 j_2 j_3 m_1 m_2 m_3 fl) = Inl ValueError_j \<longleftrightarrow>
            \<not> (is_integral (2 * j_1) \<and> is_integral (2 * j_2) \<and> is_integral (2 * j_3))) \<and>
         (is_integral (2 * j_1) \<and> is_integral (2 * j_2) \<and> is_integral (2 * j_3) \<longrightarrow>
            (fst (wigner_3j j_1 j_2 j_3 m_1 m_2 m_3 fl) = Inl ValueError_m \<longleftrightarrow>
               \<not> (is_integral (2 * m_1) \<and> is_integral (2 * m_2) \<and> is_integral (2 * m_3))) \<and>
            (is_integral (2 * m_1) \<and> is_integral (2 * m_2) \<and> is_integral (2 * m_3) \<and>
             (m_1 + m_2 + m_3 \<noteq> 0 \<or>
              j_1 + j_2 - j_3 < 0 \<or> j_1 - j_2 + j_3 < 0 \<or> - j_1 + j_2 + j_3 < 0 \<or>
              \<bar>m_1\<bar> > j_1 \<or> \<bar>m_2\<bar> > j_2 \<or> \<bar>m_3\<bar> > j_3) \<longrightarrow>
             wigner_3j j_1 j_2 j_3 m_1 m_2 m_3 fl = (Inr 0, fl)))"
proof -
  obtain m where m: "0 < m" "fl = factorials m"
    using reachable_factorials [OF assms] by blast
  let ?vj = "is_integral (j_1 * 2) \<and> is_integral (j_2 * 2) \<and> is_integral (j_3 * 2)"
  let ?vm = "is_integral (m_1 * 2) \<and> is_integral (m_2 * 2) \<and> is_integral (m_3 * 2)"
  let ?z = "m_1 + m_2 + m_3 \<noteq> 0 \<or> j_1 + j_2 - j_3 < 0 \<or> j_1 - j_2 + j_3 < 0 \<or> - j_1 + j_2 + j_3 < 0 \<or>
         j_1 < \<bar>m_1\<bar> \<or> j_2 < \<bar>m_2\<bar> \<or> j_3 < \<bar>m_3\<bar>"
  let ?w = "wigner_3j j_1 j_2 j_3 m_1 m_2 m_3 fl"
  have A: "?w = (Inl ValueError_j, fl)" if "\<not> ?vj"
    using that by (rule wigner_3j_ValueError_j)
  have B: "?w = (Inl ValueError_m, fl)" if "?vj" "\<not> ?vm"
    using that by (intro wigner_3j_ValueError_m) simp_all
  have C: "?w = (Inr 0, fl)" if "?vj" "?vm" "?z"
    using that by (intro wigner_3j_zero) simp_all
  have D: "fst ?w = Inl TypeError \<or> (\<exists>v. fst ?w = Inr v)" if "?vj" "?vm" "\<not> ?z"
  proof (cases "is_integral (j_1 + j_2 + j_3)")
    case False
    have "?w = (Inl TypeError, fl)"
      by (rule wigner_3j_TypeError) (use that False in simp_all)
    then show ?thesis by simp
  next
    case True
    then obtain J where J: "j_1 + j_2 + j_3 = of_int J"
      by (rule is_integralE)
    have "?w = (Inr (wigner_3j_formula j_1 j_2 j_3 m_1 m_2 m_3), factorials (max m (nat J + 2)))"
      unfolding m(2) by (rule wigner_3j_computed [OF m(1) _ _ _ _ _ _ _ _ _ _ _ _ _ J]) (use that in simp_all)
    then show ?thesis by simp
  qed
  have nj: "fst ?w \<noteq> Inl ValueError_j" if "?vj"
    using B [OF that] C [OF that] D [OF that] by (cases "?vm"; cases "?z") auto
  have nm: "fst ?w \<noteq> Inl ValueError_m" if "?vj" "?vm"
    using C [OF that] D [OF that] by (cases "?z") auto
  have 1: "fst ?w = Inl ValueError_j \<longleftrightarrow> \<not> ?vj"
    using A nj by (cases "?vj") simp_all
  have 2: "fst ?w = Inl ValueError_m \<longleftrightarrow> \<not> ?vm" if "?vj"
    using B [OF that] nm [OF that] by (cases "?vm") simp_all
  show ?thesis
    unfolding mult_2_commute using 1 2 C by blast
qed

lemma is_integral_add: "is_integral x \<Longrightarrow> is_integral y \<Longrightarrow> is_integral (x + y)"
  by (elim is_integralE) (metis is_integral_of_int of_int_add)

lemma is_integral_simps [simp]:
  "is_integral 0" "is_integral 1" "is_integral (numeral n)" "is_integral (- numeral n)"
  "is_integral (- 1)"
  by (simp_all add: is_integral_def)

lemma py_int_simps [simp]:
  "py_int 0 = 0" "py_int 1 = 1" "py_int (numeral n) = numeral n" "py_int (- numeral n) = - numeral n"
  "py_int (- 1) = - 1"
  using py_int_of_int [of 0] py_int_of_int [of 1] py_int_of_int [of "numeral n"]
    py_int_of_int [of "- numeral n"] py_int_of_int [of "- 1"] by simp_all

lemma factorial_simps [simp]:
  "factorial 0 = 1" "factorial 1 = 1" "factorial (numeral n) = fact (numeral n)"
  by (simp_all add: factorial_def)

theorem wigner_3j_validation_witness:
  "reachable Factlist_init \<and>
   fst (wigner_3j (21 / 10) 6 4 0 0 0 Factlist_init) = Inl ValueError_j \<and>
   fst (wigner_3j 2 6 4 1 0 (- 11 / 10) Factlist_init) = Inl ValueError_m \<and>
   wigner_3j 2 6 4 0 0 1 Factlist_init = (Inr 0, Factlist_init)"
proof -
  have "\<lfloor>21 / 5 :: rat\<rfloor> = 4" "\<lfloor>- (11 / 5) :: rat\<rfloor> = - 3"
    by (simp_all add: floor_eq_iff)
  then have n: "\<not> is_integral (21 / 5)" "\<not> is_integral (- (11 / 5))"
    by (simp_all add: is_integral_def)
  show ?thesis
    using wigner_3j_validation [OF reachable.init, of "21 / 10" 6 4 0 0 0]
      wigner_3j_validation [OF reachable.init, of 2 6 4 1 0 "- 11 / 10"]
      wigner_3j_validation [OF reachable.init, of 2 6 4 0 0 1]
    by (simp add: n reachable.init)
qed

subsection \<open>The value of \<open>wigner_3j\<close>\<close>

text \<open>
  For arguments that pass the validation and every selection rule, and with every
  \<open>j_i - m_i\<close> an integer (so that \<open>j_1 + j_2 + j_3\<close> is one and every factorial of the
  formula is that of a natural number), \<open>wigner_3j\<close> returns the sign \<open>(-1)^(j_1-j_2-m_3)\<close>
  times the square root of the radicand times the alternating sum over \<open>k\<close>.
\<close>

lemma wigner_3j_racah_formula:
  assumes "reachable fl"
    and vj: "is_integral (2 * j_1)" "is_integral (2 * j_2)" "is_integral (2 * j_3)"
    and vm: "is_integral (2 * m_1)" "is_integral (2 * m_2)" "is_integral (2 * m_3)"
    and msum: "m_1 + m_2 + m_3 = 0"
    and tri: "0 \<le> j_1 + j_2 - j_3" "0 \<le> j_1 - j_2 + j_3" "0 \<le> - j_1 + j_2 + j_3"
    and mb: "\<bar>m_1\<bar> \<le> j_1" "\<bar>m_2\<bar> \<le> j_2" "\<bar>m_3\<bar> \<le> j_3"
    and jm: "is_integral (j_1 - m_1)" "is_integral (j_2 - m_2)" "is_integral (j_3 - m_3)"
  shows "fst (wigner_3j j_1 j_2 j_3 m_1 m_2 m_3 fl) = Inr (wigner_3j_formula j_1 j_2 j_3 m_1 m_2 m_3)"
proof -
  obtain m where m: "0 < m" "fl = factorials m"
    using reachable_factorials [OF assms(1)] by blast
  have "is_integral ((j_1 - m_1) + (j_2 - m_2) + (j_3 - m_3))"
    by (intro is_integral_add jm)
  moreover have "(j_1 - m_1) + (j_2 - m_2) + (j_3 - m_3) = j_1 + j_2 + j_3"
    using msum by simp
  ultimately have "is_integral (j_1 + j_2 + j_3)"
    by simp
  then obtain J where J: "j_1 + j_2 + j_3 = of_int J"
    by (rule is_integralE)
  have "wigner_3j j_1 j_2 j_3 m_1 m_2 m_3 (factorials m) =
          (Inr (wigner_3j_formula j_1 j_2 j_3 m_1 m_2 m_3), factorials (max m (nat J + 2)))"
    using vj vm by (intro wigner_3j_computed [OF m(1) _ _ _ _ _ _ msum tri mb J]) (simp_all add: mult.commute)
  then show ?thesis
    by (simp add: m(2))
qed

lemma wigner_3j_2_6_4:
  "reachable Factlist_init \<and>
   fst (wigner_3j 2 6 4 0 0 0 Factlist_init) = Inr (sqrt (5 / 143)) \<and>
   (sqrt (5 / 143))\<^sup>2 = (5 / 143 :: real)"
proof -
  have s: "wigner_3j_sum 2 6 4 0 0 = 1 / 2304"
    by (simp add: wigner_3j_sum_def fact_numeral)
  have r: "wigner_3j_radicand 2 6 4 0 0 (- 0) = 5 / 143 * 2304\<^sup>2"
    by (simp add: wigner_3j_radicand_def fact_numeral)
  have f: "wigner_3j_formula 2 6 4 0 0 0 =
      (- 1) powi py_int (2 - 6 - 0) * sqrt (of_rat (5 / 143 * 2304\<^sup>2)) * of_rat (1 / 2304)"
    by (simp only: wigner_3j_formula_def s r)
  have a: "(of_rat (5 / 143 * 2304\<^sup>2) :: real) = 5 / 143 * 2304\<^sup>2"
    by (simp add: of_rat_mult of_rat_divide of_rat_power)
  have b: "sqrt (5 / 143 * 2304\<^sup>2) = sqrt (5 / 143) * 2304"
    by (simp only: real_sqrt_mult real_sqrt_abs abs_numeral)
  have "wigner_3j_formula 2 6 4 0 0 0 = sqrt (5 / 143)"
    unfolding f a b by (simp add: of_rat_divide)
  then show ?thesis
    using wigner_3j_racah_formula [OF reachable.init, of 2 6 4 0 0 0]
    by (simp add: reachable.init)
qed

text \<open>
  C1. \<open>wigner_3j\<close> does not check that \<open>j_1 + j_2 + j_3\<close> is an integer.
  \<open>j = (1/2, 1/2, 1/2)\<close>, \<open>m = (1/2, -1/2, 0)\<close> passes the validation and every selection
  rule; then \<open>maxfact\<close> is \<open>5/2\<close> and \<open>_calc_factlist(5/2)\<close> raises a \<open>TypeError\<close>, where the
  specification has the value of the formula and the documentation a number or the
  \<open>ValueError\<close> of the validation.
\<close>

theorem wigner_3j_TypeError_on_valid_input:
  "is_integral (2 * (1 / 2)) \<and> is_integral (2 * (- 1 / 2)) \<and> is_integral (2 * 0) \<and>
   (1 / 2 + - 1 / 2 + 0 = (0 :: rat)) \<and>
   (0 :: rat) \<le> 1 / 2 + 1 / 2 - 1 / 2 \<and> (0 :: rat) \<le> 1 / 2 - 1 / 2 + 1 / 2 \<and>
   (0 :: rat) \<le> - (1 / 2) + 1 / 2 + 1 / 2 \<and>
   \<bar>1 / 2 :: rat\<bar> \<le> 1 / 2 \<and> \<bar>- 1 / 2 :: rat\<bar> \<le> 1 / 2 \<and> \<bar>0 :: rat\<bar> \<le> 1 / 2 \<and>
   reachable Factlist_init \<and>
   fst (wigner_3j (1 / 2) (1 / 2) (1 / 2) (1 / 2) (- 1 / 2) 0 Factlist_init) = Inl TypeError"
proof -
  have "\<lfloor>3 / 2 :: rat\<rfloor> = 1"
    by (simp add: floor_eq_iff)
  then have n: "\<not> is_integral (1 / 2 + 1 / 2 + 1 / 2)"
    by (simp add: is_integral_def)
  have "wigner_3j (1 / 2) (1 / 2) (1 / 2) (1 / 2) (- 1 / 2) 0 Factlist_init = (Inl TypeError, Factlist_init)"
    by (rule wigner_3j_TypeError [OF _ _ _ _ _ _ _ _ _ _ _ _ _ n]) simp_all
  then show ?thesis
    by (simp add: reachable.init)
qed

theorem wigner_3j_TypeError_on_valid_input_witness:
  "fst (wigner_3j (1 / 2) (1 / 2) (1 / 2) (1 / 2) (- 1 / 2) 0 Factlist_init) \<noteq>
     Inr (wigner_3j_formula (1 / 2) (1 / 2) (1 / 2) (1 / 2) (- 1 / 2) 0) \<and>
   fst (wigner_3j (1 / 2) (1 / 2) (1 / 2) (1 / 2) (- 1 / 2) 0 Factlist_init) \<noteq> Inl ValueError_j \<and>
   fst (wigner_3j (1 / 2) (1 / 2) (1 / 2) (1 / 2) (- 1 / 2) 0 Factlist_init) \<noteq> Inl ValueError_m"
  using wigner_3j_TypeError_on_valid_input by simp

lemma Factlist_init_factorials: "Factlist_init = factorials 1"
  by (simp add: Factlist_init_def factorials_def)

subsection \<open>The computation of \<open>racah\<close>\<close>

lemma big_delta_coeff_result:
  assumes m: "0 < m"
  shows "\<exists>m'\<ge>m. big_delta_coeff a b c (factorials m) = (big_delta_coeff_result a b c, factorials m')"
proof -
  let ?int = "is_integral (a + b - c) \<and> is_integral (a + c - b) \<and> is_integral (b + c - a)"
  let ?neg = "a + b - c < 0 \<or> a + c - b < 0 \<or> b + c - a < 0"
  consider (bad) "\<not> ?int" | (zero) "?int" "?neg" | (ok) "?int" "\<not> ?neg"
    by blast
  then show ?thesis
  proof cases
    case bad
    then have "big_delta_coeff a b c (factorials m) = (Inl ValueError_triangle, factorials m)"
      by (auto simp add: big_delta_coeff_def is_integral_py_int raise_c_apply)
    then show ?thesis
      using bad by (auto simp add: big_delta_coeff_result_def)
  next
    case zero
    then have "big_delta_coeff a b c (factorials m) = (Inr 0, factorials m)"
      by (auto simp add: big_delta_coeff_def is_integral_py_int return_c_apply)
    then show ?thesis
      using zero by (auto simp add: big_delta_coeff_result_def)
  next
    case ok
    then have nonneg: "0 \<le> a + b - c" "0 \<le> a + c - b" "0 \<le> b + c - a"
      by auto
    have "big_delta_coeff a b c (factorials m) =
        (Inr (Delta a b c), factorials (max m (nat (py_int (a + b + c)) + 2)))"
      using ok(1) nonneg by (intro big_delta_coeff_Delta [OF m]) simp_all
    moreover have "big_delta_coeff_result a b c = Inr (Delta a b c)"
      using ok by (simp add: big_delta_coeff_result_def)
    ultimately show ?thesis
      by (metis max.cobounded1)
  qed
qed

lemma big_delta_coeff_result_nonzero:
  assumes "big_delta_coeff_result a b c = Inr d" "d \<noteq> 0"
  shows "is_integral (a + b - c)" "is_integral (a + c - b)" "is_integral (b + c - a)"
    "0 \<le> a + b - c" "0 \<le> a + c - b" "0 \<le> b + c - a" "d = Delta a b c"
  using assms by (auto simp add: big_delta_coeff_result_def split: if_splits)

lemma racah_term_factorials:
  assumes "\<forall>i\<in>set [py_int (of_int kk - aa - bb - ee), py_int (of_int kk - cc - dd - ee),
               py_int (of_int kk - aa - cc - ff), py_int (of_int kk - bb - dd - ff),
               py_int (aa + bb + cc + dd - of_int kk), py_int (aa + dd + ee + ff - of_int kk),
               py_int (bb + cc + ee + ff - of_int kk)]. 0 \<le> i \<and> i < int M"
    and "0 \<le> kk + 1" "kk + 1 < int M"
  shows "racah_term aa bb cc dd ee ff (factorials M) kk =
     Inr ((- 1) powi kk * factorial (of_int kk + 1) /
        (factorial (of_int kk - aa - bb - ee) * factorial (of_int kk - cc - dd - ee) *
         factorial (of_int kk - aa - cc - ff) * factorial (of_int kk - bb - dd - ff) *
         factorial (aa + bb + cc + dd - of_int kk) * factorial (aa + dd + ee + ff - of_int kk) *
         factorial (bb + cc + ee + ff - of_int kk)))"
proof -
  let ?is = "[py_int (of_int kk - aa - bb - ee), py_int (of_int kk - cc - dd - ee),
               py_int (of_int kk - aa - cc - ff), py_int (of_int kk - bb - dd - ff),
               py_int (aa + bb + cc + dd - of_int kk), py_int (aa + dd + ee + ff - of_int kk),
               py_int (bb + cc + ee + ff - of_int kk)]"
  let ?den = "prod_list (map (\<lambda>i. fact (nat i)) ?is) :: int"
  have prod: "Factlist_prod (factorials M) ?is = Inr ?den"
    using assms(1) by (rule Factlist_prod_factorials)
  have rd: "py_index (factorials M) (kk + 1) = Inr (fact (nat (kk + 1)))"
    using assms(2,3) by (rule py_index_factorials)
  have "?den \<noteq> 0"
    by simp
  then have dv: "py_div (of_int (neg1_pow kk * fact (nat (kk + 1)))) (of_int ?den) =
             Inr (of_int (neg1_pow kk * fact (nat (kk + 1))) / of_int ?den)"
    by (rule py_div_of_int)
  have val: "(of_int ?den :: rat) =
         factorial (of_int kk - aa - bb - ee) * factorial (of_int kk - cc - dd - ee) *
         factorial (of_int kk - aa - cc - ff) * factorial (of_int kk - bb - dd - ff) *
         factorial (aa + bb + cc + dd - of_int kk) * factorial (aa + dd + ee + ff - of_int kk) *
         factorial (bb + cc + ee + ff - of_int kk)"
    by (simp add: factorial_def mult.assoc)
  have "py_int (of_int kk + 1) = kk + 1"
    using py_int_of_int [of "kk + 1"] by simp
  then have nm: "(of_int (neg1_pow kk * fact (nat (kk + 1))) :: rat) = (- 1) powi kk * factorial (of_int kk + 1)"
    by (simp add: factorial_def neg1_pow_powi)
  show ?thesis
    unfolding racah_term_def prod bind_e_Inr rd dv
    by (simp only: val nm)
qed

lemma is_integral_diff: "is_integral x \<Longrightarrow> is_integral y \<Longrightarrow> is_integral (x - y)"
  by (elim is_integralE) (metis is_integral_of_int of_int_diff)

lemma is_integral_max: "is_integral x \<Longrightarrow> is_integral y \<Longrightarrow> is_integral (max x y)"
  by (simp add: max_def)

lemma calc_factlist_integral:
  assumes "0 < m" "is_integral nn" "0 \<le> nn"
  shows "calc_factlist nn (factorials m) =
           (Inr (factorials (Suc (nat (py_int nn)))), factorials (max m (Suc (nat (py_int nn)))))"
proof -
  obtain n where n: "nn = of_int n"
    using assms(2) by (rule is_integralE)
  then have "0 \<le> n"
    using assms(3) by simp
  then show ?thesis
    unfolding n py_int_of_int by (rule calc_factlist_of_int [OF assms(1)])
qed

lemma racah_loop:
  assumes m: "0 < m"
    and t1: "is_integral (aa + bb - ee)" "is_integral (aa + ee - bb)" "is_integral (bb + ee - aa)"
      "0 \<le> aa + bb - ee" "0 \<le> aa + ee - bb" "0 \<le> bb + ee - aa"
    and t2: "is_integral (cc + dd - ee)" "is_integral (cc + ee - dd)" "is_integral (dd + ee - cc)"
      "0 \<le> cc + dd - ee" "0 \<le> cc + ee - dd" "0 \<le> dd + ee - cc"
    and t3: "is_integral (aa + cc - ff)" "is_integral (aa + ff - cc)" "is_integral (cc + ff - aa)"
      "0 \<le> aa + cc - ff" "0 \<le> aa + ff - cc" "0 \<le> cc + ff - aa"
    and t4: "is_integral (bb + dd - ff)" "is_integral (bb + ff - dd)" "is_integral (dd + ff - bb)"
      "0 \<le> bb + dd - ff" "0 \<le> bb + ff - dd" "0 \<le> dd + ff - bb"
  defines "imin \<equiv> py_int (max (max (max (aa + bb + ee) (cc + dd + ee)) (aa + cc + ff)) (bb + dd + ff))"
    and "imax \<equiv> py_int (min (min (aa + bb + cc + dd) (aa + dd + ee + ff)) (bb + cc + ee + ff))"
  defines "maxfact \<equiv> max (max (max (of_int imax + 1) (aa + bb + cc + dd)) (aa + dd + ee + ff))
                       (bb + cc + ee + ff)"
  shows "\<exists>M\<ge>m. \<exists>l. calc_factlist maxfact (factorials m) = (Inr l, factorials M) \<and>
           sum_loop (racah_term aa bb cc dd ee ff (factorials M)) [imin .. imax] 0 =
             Inr (racah_sum aa bb cc dd ee ff)"
proof -
  have pos: "0 \<le> aa" "0 \<le> bb" "0 \<le> cc" "0 \<le> dd" "0 \<le> ee" "0 \<le> ff"
    using t1(4-6) t2(4-6) t3(4-6) by linarith+
  have "is_integral ((aa + bb - ee) + (cc + dd - ee) + ((aa + ee - bb) + (bb + ee - aa)))"
    by (intro is_integral_add t1(1-3) t2(1))
  moreover have "(aa + bb - ee) + (cc + dd - ee) + ((aa + ee - bb) + (bb + ee - aa)) = aa + bb + cc + dd"
    by simp
  ultimately have i1: "is_integral (aa + bb + cc + dd)"
    by (simp only:)
  have "is_integral ((aa + ee - bb) + (bb + dd - ff) + ((bb + ff - dd) + (dd + ff - bb)))"
    by (intro is_integral_add t1(2) t4(1-3))
  moreover have "(aa + ee - bb) + (bb + dd - ff) + ((bb + ff - dd) + (dd + ff - bb)) = aa + dd + ee + ff"
    by simp
  ultimately have i2: "is_integral (aa + dd + ee + ff)"
    by (simp only:)
  have "is_integral ((bb + ee - aa) + (aa + cc - ff) + ((aa + ff - cc) + (cc + ff - aa)))"
    by (intro is_integral_add t1(3) t3(1-3))
  moreover have "(bb + ee - aa) + (aa + cc - ff) + ((aa + ff - cc) + (cc + ff - aa)) = bb + cc + ee + ff"
    by simp
  ultimately have i3: "is_integral (bb + cc + ee + ff)"
    by (simp only:)
  have "is_integral (of_int imax + 1)"
    by (simp add: is_integral_add_one is_integral_of_int)
  then have mfi: "is_integral maxfact"
    unfolding maxfact_def by (intro is_integral_max i1 i2 i3)
  have mf0: "0 \<le> maxfact"
    unfolding maxfact_def using pos by (simp add: le_max_iff_disj)
  define M where "M = max m (Suc (nat (py_int maxfact)))"
  have cf: "calc_factlist maxfact (factorials m) = (Inr (factorials (Suc (nat (py_int maxfact)))), factorials M)"
    unfolding M_def using m mfi mf0 by (rule calc_factlist_integral)
  have mfeq: "of_int (py_int maxfact) = maxfact"
    using mfi by (simp add: is_integral_py_int)
  have "0 \<le> py_int maxfact"
    using mf0 py_int_ge_0 [of maxfact] by simp
  then have Mgt: "py_int maxfact < int M"
    by (simp add: M_def)
  have bnd: "0 \<le> py_int x \<and> py_int x < int M" if "- 1 < x" "x \<le> maxfact" for x
  proof -
    have "x \<le> of_int (py_int maxfact)"
      using that(2) mfeq by simp
    then have "py_int x \<le> py_int maxfact"
      by (rule py_int_le)
    then show ?thesis
      using py_int_ge_0 [OF that(1)] Mgt by simp
  qed
  have mfge: "of_int imax + 1 \<le> maxfact" "aa + bb + cc + dd \<le> maxfact" "aa + dd + ee + ff \<le> maxfact"
    "bb + cc + ee + ff \<le> maxfact"
    unfolding maxfact_def by simp_all
  let ?f = "\<lambda>k. (- 1) powi k * factorial (of_int k + 1) /
        (factorial (of_int k - aa - bb - ee) * factorial (of_int k - cc - dd - ee) *
         factorial (of_int k - aa - cc - ff) * factorial (of_int k - bb - dd - ff) *
         factorial (aa + bb + cc + dd - of_int k) * factorial (aa + dd + ee + ff - of_int k) *
         factorial (bb + cc + ee + ff - of_int k)) :: rat"
  have tm: "racah_term aa bb cc dd ee ff (factorials M) kk = Inr (?f kk)"
    if kk: "kk \<in> set [imin .. imax]" for kk
  proof -
    have lo: "imin \<le> kk" and hi: "kk \<le> imax"
      using kk by simp_all
    have "0 \<le> min (min (aa + bb + cc + dd) (aa + dd + ee + ff)) (bb + cc + ee + ff)"
      using pos by simp
    then have "of_int imax \<le> min (min (aa + bb + cc + dd) (aa + dd + ee + ff)) (bb + cc + ee + ff)"
      unfolding imax_def by (rule py_int_le_self)
    moreover have "(of_int kk :: rat) \<le> of_int imax"
      using hi by simp
    ultimately have "of_int kk \<le> min (min (aa + bb + cc + dd) (aa + dd + ee + ff)) (bb + cc + ee + ff)"
      by (rule order_trans [rotated])
    then have up: "of_int kk \<le> aa + bb + cc + dd" "of_int kk \<le> aa + dd + ee + ff"
      "of_int kk \<le> bb + cc + ee + ff"
      by simp_all
    have "max (max (max (aa + bb + ee) (cc + dd + ee)) (aa + cc + ff)) (bb + dd + ff) - 1 < of_int imin"
      unfolding imin_def by (rule py_int_gt)
    also have "(of_int imin :: rat) \<le> of_int kk"
      using lo by simp
    finally have "max (max (max (aa + bb + ee) (cc + dd + ee)) (aa + cc + ff)) (bb + dd + ff) - 1 < of_int kk" .
    then have dn: "aa + bb + ee - 1 < of_int kk" "cc + dd + ee - 1 < of_int kk"
      "aa + cc + ff - 1 < of_int kk" "bb + dd + ff - 1 < of_int kk"
      by simp_all
    have "(- 1 :: rat) < of_int kk"
      using dn(1) pos(1,2,5) by linarith
    then have kk0: "0 \<le> kk"
      by linarith
    then have kk0r: "(0 :: rat) \<le> of_int kk"
      by simp
    have kkle: "(of_int kk :: rat) + 1 \<le> maxfact"
      using hi mfge(1) by (meson add_right_mono of_int_le_iff order_trans)
    have kkmf: "of_int kk \<le> maxfact"
      using kkle by linarith
    have s0: "0 \<le> aa + bb + ee" "0 \<le> cc + dd + ee" "0 \<le> aa + cc + ff" "0 \<le> bb + dd + ff"
      using pos by simp_all
    have b1: "0 \<le> py_int (of_int kk - aa - bb - ee) \<and> py_int (of_int kk - aa - bb - ee) < int M"
    proof (rule bnd)
      show "- 1 < of_int kk - aa - bb - ee" using dn(1) by linarith
      show "of_int kk - aa - bb - ee \<le> maxfact" using s0(1) kkmf by linarith
    qed
    have b2: "0 \<le> py_int (of_int kk - cc - dd - ee) \<and> py_int (of_int kk - cc - dd - ee) < int M"
    proof (rule bnd)
      show "- 1 < of_int kk - cc - dd - ee" using dn(2) by linarith
      show "of_int kk - cc - dd - ee \<le> maxfact" using s0(2) kkmf by linarith
    qed
    have b3: "0 \<le> py_int (of_int kk - aa - cc - ff) \<and> py_int (of_int kk - aa - cc - ff) < int M"
    proof (rule bnd)
      show "- 1 < of_int kk - aa - cc - ff" using dn(3) by linarith
      show "of_int kk - aa - cc - ff \<le> maxfact" using s0(3) kkmf by linarith
    qed
    have b4: "0 \<le> py_int (of_int kk - bb - dd - ff) \<and> py_int (of_int kk - bb - dd - ff) < int M"
    proof (rule bnd)
      show "- 1 < of_int kk - bb - dd - ff" using dn(4) by linarith
      show "of_int kk - bb - dd - ff \<le> maxfact" using s0(4) kkmf by linarith
    qed
    have b5: "0 \<le> py_int (aa + bb + cc + dd - of_int kk) \<and> py_int (aa + bb + cc + dd - of_int kk) < int M"
    proof (rule bnd)
      show "- 1 < aa + bb + cc + dd - of_int kk" using up(1) by linarith
      show "aa + bb + cc + dd - of_int kk \<le> maxfact" using mfge(2) kk0r by linarith
    qed
    have b6: "0 \<le> py_int (aa + dd + ee + ff - of_int kk) \<and> py_int (aa + dd + ee + ff - of_int kk) < int M"
    proof (rule bnd)
      show "- 1 < aa + dd + ee + ff - of_int kk" using up(2) by linarith
      show "aa + dd + ee + ff - of_int kk \<le> maxfact" using mfge(3) kk0r by linarith
    qed
    have b7: "0 \<le> py_int (bb + cc + ee + ff - of_int kk) \<and> py_int (bb + cc + ee + ff - of_int kk) < int M"
    proof (rule bnd)
      show "- 1 < bb + cc + ee + ff - of_int kk" using up(3) by linarith
      show "bb + cc + ee + ff - of_int kk \<le> maxfact" using mfge(4) kk0r by linarith
    qed
    have "0 \<le> py_int (of_int (kk + 1)) \<and> py_int (of_int (kk + 1)) < int M"
      by (rule bnd) (use kk0r kkle in simp_all)
    then have b8: "0 \<le> kk + 1" "kk + 1 < int M"
      unfolding py_int_of_int by simp_all
    show ?thesis
      by (rule racah_term_factorials [OF _ b8]) (use b1 b2 b3 b4 b5 b6 b7 in simp)
  qed
  then have "\<forall>kk\<in>set [imin .. imax]. racah_term aa bb cc dd ee ff (factorials M) kk = Inr (?f kk)"
    by blast
  then have "sum_loop (racah_term aa bb cc dd ee ff (factorials M)) [imin .. imax] 0 =
               Inr (0 + sum_list (map ?f [imin .. imax]))"
    by (rule sum_loop_Inr)
  then have loop: "sum_loop (racah_term aa bb cc dd ee ff (factorials M)) [imin .. imax] 0 =
               Inr (racah_sum aa bb cc dd ee ff)"
    by (simp only: racah_sum_def imin_def imax_def add_0_left)
  have "m \<le> M"
    by (simp add: M_def)
  then show ?thesis
    using cf loop by blast
qed

lemma big_delta_coeff_returns:
  assumes "0 < m" "big_delta_coeff a b c (factorials m) = (Inr d, fl')"
  shows "big_delta_coeff_result a b c = Inr d \<and> (\<exists>m'\<ge>m. fl' = factorials m')"
  using big_delta_coeff_result [OF assms(1), of a b c] assms(2) by auto

subsection \<open>Values of the Racah coefficient\<close>

lemma racah_333333: "racah_result 3 3 3 3 3 3 = Inr (- 1 / 14)"
proof -
  have d: "big_delta_coeff_result 3 3 3 = Inr (sqrt (1 / 16800))"
    by (simp add: big_delta_coeff_result_def Delta_def fact_numeral)
  have s: "racah_sum 3 3 3 3 3 3 = - 20160000"
    by (simp add: racah_sum_def fact_numeral)
  have "sqrt (1 / 16800) * sqrt (1 / 16800) * sqrt (1 / 16800) * sqrt (1 / 16800) =
          (sqrt (1 / 16800) * sqrt (1 / 16800)) * (sqrt (1 / 16800) * sqrt (1 / 16800))"
    by (simp only: mult.assoc)
  also have "\<dots> = 1 / 16800 * (1 / 16800)"
    by simp
  finally have p: "sqrt (1 / 16800) * sqrt (1 / 16800) * sqrt (1 / 16800) * sqrt (1 / 16800) =
          1 / 16800 * (1 / 16800)" .
  show ?thesis
    unfolding racah_result_def d bind_e_Inr p s by simp
qed

lemma racah_result_555555: "racah_result 5 5 5 5 5 5 = Inr (1 / 52)"
proof -
  have d: "big_delta_coeff_result 5 5 5 = Inr (sqrt (1 / 12108096))"
    by (simp add: big_delta_coeff_result_def Delta_def fact_numeral)
  have s: "racah_sum 5 5 5 5 5 5 = 2819345937408"
    by (simp add: racah_sum_def fact_numeral)
  have "sqrt (1 / 12108096) * sqrt (1 / 12108096) * sqrt (1 / 12108096) * sqrt (1 / 12108096) =
          (sqrt (1 / 12108096) * sqrt (1 / 12108096)) * (sqrt (1 / 12108096) * sqrt (1 / 12108096))"
    by (simp only: mult.assoc)
  also have "\<dots> = 1 / 12108096 * (1 / 12108096)"
    by simp
  finally have p: "sqrt (1 / 12108096) * sqrt (1 / 12108096) * sqrt (1 / 12108096) * sqrt (1 / 12108096) =
          1 / 12108096 * (1 / 12108096)" .
  show ?thesis
    unfolding racah_result_def d bind_e_Inr p s by simp
qed

lemma Delta_values:
  "Delta 1 1 1 = sqrt (1 / 24)" "Delta 0 1 1 = sqrt (1 / 3)" "Delta 1 0 1 = sqrt (1 / 3)"
  "Delta 1 1 0 = sqrt (1 / 3)"
  by (simp_all add: Delta_def fact_numeral)

lemma sqrt_products:
  "sqrt (1 / 24) * sqrt (1 / 3) * sqrt (1 / 3) * sqrt (1 / 24) = 1 / 72"
  "sqrt (1 / 24) * sqrt (1 / 24) * sqrt (1 / 3) * sqrt (1 / 3) = 1 / 72"
  "sqrt (1 / 24) * sqrt (1 / 24) * sqrt (1 / 24) * sqrt (1 / 24) = 1 / 576"
proof -
  have a: "sqrt (1 / 24) * sqrt (1 / 24) = 1 / 24" and b: "sqrt (1 / 3) * sqrt (1 / 3) = 1 / 3"
    by simp_all
  have "sqrt (1 / 24) * sqrt (1 / 3) * sqrt (1 / 3) * sqrt (1 / 24) =
          (sqrt (1 / 24) * sqrt (1 / 24)) * (sqrt (1 / 3) * sqrt (1 / 3))"
    by (simp only: mult_ac)
  then show "sqrt (1 / 24) * sqrt (1 / 3) * sqrt (1 / 3) * sqrt (1 / 24) = 1 / 72"
    unfolding a b by simp
  have "sqrt (1 / 24) * sqrt (1 / 24) * sqrt (1 / 3) * sqrt (1 / 3) =
          (sqrt (1 / 24) * sqrt (1 / 24)) * (sqrt (1 / 3) * sqrt (1 / 3))"
    by (simp only: mult_ac)
  then show "sqrt (1 / 24) * sqrt (1 / 24) * sqrt (1 / 3) * sqrt (1 / 3) = 1 / 72"
    unfolding a b by simp
  have "sqrt (1 / 24) * sqrt (1 / 24) * sqrt (1 / 24) * sqrt (1 / 24) =
          (sqrt (1 / 24) * sqrt (1 / 24)) * (sqrt (1 / 24) * sqrt (1 / 24))"
    by (simp only: mult_ac)
  then show "sqrt (1 / 24) * sqrt (1 / 24) * sqrt (1 / 24) * sqrt (1 / 24) = 1 / 576"
    unfolding a by simp
qed

lemma racah_result_110110: "racah_result 1 1 0 1 1 0 = Inr 0"
  by (simp add: racah_result_def big_delta_coeff_result_def bind_e_Inr)

lemma racah_result_110111: "racah_result 1 1 0 1 1 1 = Inr (1 / 3)"
proof -
  have d: "big_delta_coeff_result 1 1 1 = Inr (sqrt (1 / 24))"
    "big_delta_coeff_result 0 1 1 = Inr (sqrt (1 / 3))"
    "big_delta_coeff_result 1 0 1 = Inr (sqrt (1 / 3))"
    by (simp_all add: big_delta_coeff_result_def Delta_values)
  have s: "racah_sum 1 1 0 1 1 1 = - 24"
    by (simp add: racah_sum_def fact_numeral)
  show ?thesis
    unfolding racah_result_def d bind_e_Inr sqrt_products s by simp
qed

lemma racah_result_111110: "racah_result 1 1 1 1 1 0 = Inr (- 1 / 3)"
proof -
  have d: "big_delta_coeff_result 1 1 1 = Inr (sqrt (1 / 24))"
    "big_delta_coeff_result 1 1 0 = Inr (sqrt (1 / 3))"
    by (simp_all add: big_delta_coeff_result_def Delta_values)
  have s: "racah_sum 1 1 1 1 1 0 = - 24"
    by (simp add: racah_sum_def fact_numeral)
  show ?thesis
    unfolding racah_result_def d bind_e_Inr sqrt_products s by simp
qed

lemma racah_result_111111: "racah_result 1 1 1 1 1 1 = Inr (1 / 6)"
proof -
  have d: "big_delta_coeff_result 1 1 1 = Inr (sqrt (1 / 24))"
    by (simp_all add: big_delta_coeff_result_def Delta_values)
  have s: "racah_sum 1 1 1 1 1 1 = 96"
    by (simp add: racah_sum_def fact_numeral)
  show ?thesis
    unfolding racah_result_def d bind_e_Inr sqrt_products s by simp
qed

subsection \<open>\<open>gaunt\<close>\<close>

lemma gaunt_of_int:
  "gaunt (of_int l_1) (of_int l_2) (of_int l_3) (of_int m_1) (of_int m_2) (of_int m_3) =
     gaunt_Integer l_1 l_2 l_3 m_1 m_2 m_3"
  by (rule ext) (simp add: gaunt_def bind_c_apply read_c_apply to_Integer_of_int)

lemma gaunt_Integer_zero:
  assumes "l_1 + l_2 - l_3 < 0 \<or> l_1 - l_2 + l_3 < 0 \<or> - l_1 + l_2 + l_3 < 0 \<or> odd (l_1 + l_2 + l_3) \<or>
           m_1 + m_2 + m_3 \<noteq> 0 \<or> \<bar>m_1\<bar> > l_1 \<or> \<bar>m_2\<bar> > l_2 \<or> \<bar>m_3\<bar> > l_3"
  shows "gaunt_Integer l_1 l_2 l_3 m_1 m_2 m_3 fl = (Inr 0, fl)"
proof -
  have "2 * (rat_of_int (l_1 + l_2 + l_3) / 2) = of_int (l_1 + l_2 + l_3)"
    by simp
  then have par: "py_int (2 * (rat_of_int (l_1 + l_2 + l_3) / 2)) mod 2 \<noteq> 0 \<longleftrightarrow> odd (l_1 + l_2 + l_3)"
    by (simp only: py_int_of_int odd_iff_mod_2_eq_one) presburger
  show ?thesis
    unfolding gaunt_Integer_def Let_def par
    using assms by (auto simp add: return_c_apply)
qed

lemma gaunt_term_factorials:
  assumes "\<forall>i\<in>set [ii, ii + l_3 - l_1 - m_2, l_2 + m_2 - ii, l_1 - ii - m_1,
               ii + l_3 - l_2 + m_1, l_1 + l_2 - l_3 - ii]. 0 \<le> i \<and> i < int M"
  shows "gaunt_term l_1 l_2 l_3 m_1 m_2 (factorials M) ii =
     Inr ((- 1) powi ii /
        (fact (nat ii) * fact (nat (ii + l_3 - l_1 - m_2)) * fact (nat (l_2 + m_2 - ii)) *
         fact (nat (l_1 - ii - m_1)) * fact (nat (ii + l_3 - l_2 + m_1)) * fact (nat (l_1 + l_2 - l_3 - ii))))"
proof -
  let ?is = "[ii, ii + l_3 - l_1 - m_2, l_2 + m_2 - ii, l_1 - ii - m_1,
               ii + l_3 - l_2 + m_1, l_1 + l_2 - l_3 - ii]"
  let ?den = "prod_list (map (\<lambda>i. fact (nat i)) ?is) :: int"
  have prod: "Factlist_prod (factorials M) ?is = Inr ?den"
    using assms by (rule Factlist_prod_factorials)
  have "?den \<noteq> 0"
    by simp
  then have dv: "py_div (of_int (neg1_pow ii)) (of_int ?den) = Inr (of_int (neg1_pow ii) / of_int ?den)"
    by (rule py_div_of_int)
  have val: "(of_int ?den :: rat) =
        fact (nat ii) * fact (nat (ii + l_3 - l_1 - m_2)) * fact (nat (l_2 + m_2 - ii)) *
         fact (nat (l_1 - ii - m_1)) * fact (nat (ii + l_3 - l_2 + m_1)) * fact (nat (l_1 + l_2 - l_3 - ii))"
    by (simp add: mult.assoc)
  show ?thesis
    unfolding gaunt_term_def prod bind_e_Inr dv
    by (simp only: val neg1_pow_powi)
qed

lemma gaunt_Integer_computed:
  assumes m: "0 < m"
    and tri: "0 \<le> l_1 + l_2 - l_3" "0 \<le> l_1 - l_2 + l_3" "0 \<le> - l_1 + l_2 + l_3"
    and ev: "even (l_1 + l_2 + l_3)"
    and msum: "m_1 + m_2 + m_3 = 0"
    and mb: "\<bar>m_1\<bar> \<le> l_1" "\<bar>m_2\<bar> \<le> l_2" "\<bar>m_3\<bar> \<le> l_3"
  shows "\<exists>M\<ge>m. gaunt_Integer l_1 l_2 l_3 m_1 m_2 m_3 (factorials m) =
           (Inr (gaunt_formula l_1 l_2 l_3 m_1 m_2 m_3), factorials M)"
proof -
  define L where "L = (l_1 + l_2 + l_3) div 2"
  have J: "l_1 + l_2 + l_3 = 2 * L"
    using ev by (simp add: L_def)
  have bigL: "rat_of_int (l_1 + l_2 + l_3) / 2 = of_int L"
    unfolding J by simp
  have par: "\<not> py_int (2 * rat_of_int L) mod 2 \<noteq> 0"
    using py_int_of_int [of "2 * L"] by simp
  have lpos: "0 \<le> l_1" "0 \<le> l_2" "0 \<le> l_3"
    using tri by linarith+
  define imin where "imin = max (max (- l_3 + l_1 + m_2) (- l_3 + l_2 - m_1)) 0"
  define imax where "imax = min (min (l_2 + m_2) (l_1 - m_1)) (l_1 + l_2 - l_3)"
  have "imax \<le> 2 * L"
    unfolding imax_def J [symmetric] using lpos by simp
  then have mf: "max (l_1 + l_2 + l_3 + 1) (imax + 1) = 2 * L + 1"
    unfolding J by simp
  define M where "M = max m (Suc (nat (2 * L + 1)))"
  have Lpos: "0 \<le> L"
    using J lpos by linarith
  have cf: "calc_factlist (of_int (2 * L + 1)) (factorials m) =
              (Inr (factorials (Suc (nat (2 * L + 1)))), factorials M)"
    unfolding M_def using m by (rule calc_factlist_of_int) (use Lpos in simp)
  have M: "2 * L + 1 < int M"
    using Lpos by (simp add: M_def)
  have idx: "0 \<le> x \<and> x < int M" if "0 \<le> x" "x \<le> 2 * L" for x
    using that M by simp
  have ml: "- l_1 \<le> m_1" "m_1 \<le> l_1" "- l_2 \<le> m_2" "m_2 \<le> l_2" "- l_3 \<le> m_3" "m_3 \<le> l_3"
    using mb by linarith+
  let ?fs = "[l_1 - m_1, l_1 + m_1, l_2 - m_2, l_2 + m_2, l_3 - m_3, l_3 + m_3]"
  have "\<forall>i\<in>set ?fs. 0 \<le> i \<and> i < int M"
    using idx [of "l_1 - m_1"] idx [of "l_1 + m_1"] idx [of "l_2 - m_2"] idx [of "l_2 + m_2"]
      idx [of "l_3 - m_3"] idx [of "l_3 + m_3"] ml tri J by simp
  then have fs: "Factlist_prod (factorials M) ?fs = Inr (prod_list (map (\<lambda>i. fact (nat i)) ?fs))"
    by (rule Factlist_prod_factorials)
  have tL: "to_Integer (rat_of_int L) = Inr L"
    by (rule to_Integer_of_int)
  have t2L: "to_Integer (2 * rat_of_int L + 1) = Inr (2 * L + 1)"
    using to_Integer_of_int [of "2 * L + 1"] by simp
  have t1: "to_Integer (rat_of_int L - rat_of_int l_1) = Inr (L - l_1)"
    "to_Integer (rat_of_int L - rat_of_int l_2) = Inr (L - l_2)"
    "to_Integer (rat_of_int L - rat_of_int l_3) = Inr (L - l_3)"
    using to_Integer_of_int [of "L - l_1"] to_Integer_of_int [of "L - l_2"]
      to_Integer_of_int [of "L - l_3"] by simp_all
  let ?ns = "[L, l_2 - l_1 + l_3, l_1 - l_2 + l_3, l_1 + l_2 - l_3]"
  have "\<forall>i\<in>set ?ns. 0 \<le> i \<and> i < int M"
    using idx [of L] idx [of "l_2 - l_1 + l_3"] idx [of "l_1 - l_2 + l_3"] idx [of "l_1 + l_2 - l_3"]
      Lpos tri lpos J by simp
  then have ns: "Factlist_prod (factorials M) ?ns = Inr (prod_list (map (\<lambda>i. fact (nat i)) ?ns))"
    by (rule Factlist_prod_factorials)
  have d1: "py_index (factorials M) (2 * L + 1) = Inr (fact (nat (2 * L + 1)))"
    using py_index_factorials [of "2 * L + 1" M] M Lpos by simp
  have dv1: "py_div (of_int (prod_list (map (\<lambda>i. fact (nat i)) ?ns))) (of_int (fact (nat (2 * L + 1)))) =
       Inr (of_int (prod_list (map (\<lambda>i. fact (nat i)) ?ns)) / of_int (fact (nat (2 * L + 1))))"
    by (rule py_div_of_int) simp
  let ?ds = "[L - l_1, L - l_2, L - l_3]"
  have "\<forall>i\<in>set ?ds. 0 \<le> i \<and> i < int M"
    using idx [of "L - l_1"] idx [of "L - l_2"] idx [of "L - l_3"] tri lpos J by simp
  then have ds: "Factlist_prod (factorials M) ?ds = Inr (prod_list (map (\<lambda>i. fact (nat i)) ?ds))"
    by (rule Factlist_prod_factorials)
  have dv2: "py_div (of_int (prod_list (map (\<lambda>i. fact (nat i)) ?ns)) / of_int (fact (nat (2 * L + 1))))
               (of_int (prod_list (map (\<lambda>i. fact (nat i)) ?ds))) =
       Inr (gaunt_prefac l_1 l_2 l_3)"
    by (simp add: py_div_def gaunt_prefac_def L_def [symmetric] Let_def mult.assoc)
  let ?f = "\<lambda>i. (- 1) powi i /
        (fact (nat i) * fact (nat (i + l_3 - l_1 - m_2)) * fact (nat (l_2 + m_2 - i)) *
         fact (nat (l_1 - i - m_1)) * fact (nat (i + l_3 - l_2 + m_1)) * fact (nat (l_1 + l_2 - l_3 - i))) :: rat"
  have tm: "gaunt_term l_1 l_2 l_3 m_1 m_2 (factorials M) ii = Inr (?f ii)"
    if ii: "ii \<in> set [imin .. imax]" for ii
  proof -
    have lo: "imin \<le> ii" and hi: "ii \<le> imax"
      using ii by simp_all
    have up: "ii \<le> l_2 + m_2" "ii \<le> l_1 - m_1" "ii \<le> l_1 + l_2 - l_3"
      using hi unfolding imax_def by simp_all
    have dn: "- l_3 + l_1 + m_2 \<le> ii" "- l_3 + l_2 - m_1 \<le> ii" "0 \<le> ii"
      using lo unfolding imin_def by simp_all
    have "\<forall>i\<in>set [ii, ii + l_3 - l_1 - m_2, l_2 + m_2 - ii, l_1 - ii - m_1,
               ii + l_3 - l_2 + m_1, l_1 + l_2 - l_3 - ii]. 0 \<le> i \<and> i < int M"
      using idx [of ii] idx [of "ii + l_3 - l_1 - m_2"] idx [of "l_2 + m_2 - ii"]
        idx [of "l_1 - ii - m_1"] idx [of "ii + l_3 - l_2 + m_1"] idx [of "l_1 + l_2 - l_3 - ii"]
        up dn ml tri lpos J by simp
    then show ?thesis
      by (rule gaunt_term_factorials)
  qed
  then have "\<forall>ii\<in>set [imin .. imax]. gaunt_term l_1 l_2 l_3 m_1 m_2 (factorials M) ii = Inr (?f ii)"
    by blast
  then have "sum_loop (gaunt_term l_1 l_2 l_3 m_1 m_2 (factorials M)) [imin .. imax] 0 =
               Inr (0 + sum_list (map ?f [imin .. imax]))"
    by (rule sum_loop_Inr)
  then have loop: "sum_loop (gaunt_term l_1 l_2 l_3 m_1 m_2 (factorials M)) [imin .. imax] 0 =
               Inr (gaunt_sum l_1 l_2 l_3 m_1 m_2)"
    by (simp only: gaunt_sum_def imin_def imax_def add_0_left)
  have sel: "\<not> l_1 + l_2 - l_3 < 0" "\<not> l_1 - l_2 + l_3 < 0" "\<not> - l_1 + l_2 + l_3 < 0"
    "\<not> (l_1 < \<bar>m_1\<bar> \<or> l_2 < \<bar>m_2\<bar> \<or> l_3 < \<bar>m_3\<bar>)"
    using tri mb by simp_all
  have sg: "py_int (rat_of_int L + rat_of_int l_3 + rat_of_int m_1 - rat_of_int m_2) = L + l_3 + m_1 - m_2"
    using py_int_of_int [of "L + l_3 + m_1 - m_2"] by simp
  have rad: "real_of_int ((2 * l_1 + 1) * (2 * l_2 + 1) * (2 * l_3 + 1) *
                prod_list (map (\<lambda>i. fact (nat i)) ?fs)) / (4 * pi) = gaunt_radicand l_1 l_2 l_3 m_1 m_2 m_3"
    by (simp add: gaunt_radicand_def mult.assoc)
  have fin: "sqrt (gaunt_radicand l_1 l_2 l_3 m_1 m_2 m_3) * of_rat (gaunt_prefac l_1 l_2 l_3) *
               of_rat (gaunt_sum l_1 l_2 l_3 m_1 m_2) * of_int (neg1_pow (L + l_3 + m_1 - m_2)) =
             gaunt_formula l_1 l_2 l_3 m_1 m_2 m_3"
    by (simp add: gaunt_formula_def neg1_pow_powi L_def)
  have "gaunt_Integer l_1 l_2 l_3 m_1 m_2 m_3 (factorials m) =
          (Inr (gaunt_formula l_1 l_2 l_3 m_1 m_2 m_3), factorials M)"
    unfolding gaunt_Integer_def Let_def bigL imin_def [symmetric] imax_def [symmetric]
    apply (simp only: sel par msum mf simp_thms if_False)
    apply (simp only: bind_c_apply cf read_c_apply fs tL t2L t1 ns d1 dv1 ds dv2 bind_e_Inr loop
        prod.case sum.case return_c_apply rad sg fin)
    done
  moreover have "m \<le> M"
    by (simp add: M_def)
  ultimately show ?thesis
    by blast
qed

text \<open>
  C4. For integer arguments \<open>gaunt\<close> returns 0, leaving the cache as it was, whenever one of
  \<open>l_1+l_2-l_3\<close>, \<open>l_1-l_2+l_3\<close>, \<open>-l_1+l_2+l_3\<close> is negative, or \<open>l_1+l_2+l_3\<close> is odd, or
  \<open>m_1+m_2+m_3\<close> is not 0, or \<open>|m_i| > l_i\<close> for some \<open>i\<close>. In every other case it returns the
  value of the formula: \<open>sqrt(radicand) * prefac * sum * (-1)^(L+l_3+m_1-m_2)\<close>.
\<close>

theorem gaunt_selection_rules_and_value:
  assumes "reachable fl"
  shows "(l_1 + l_2 - l_3 < 0 \<or> l_1 - l_2 + l_3 < 0 \<or> - l_1 + l_2 + l_3 < 0 \<or> odd (l_1 + l_2 + l_3) \<or>
          m_1 + m_2 + m_3 \<noteq> 0 \<or> \<bar>m_1\<bar> > l_1 \<or> \<bar>m_2\<bar> > l_2 \<or> \<bar>m_3\<bar> > l_3 \<longrightarrow>
            gaunt (of_int l_1) (of_int l_2) (of_int l_3) (of_int m_1) (of_int m_2) (of_int m_3) fl =
              (Inr 0, fl)) \<and>
         (\<not> (l_1 + l_2 - l_3 < 0 \<or> l_1 - l_2 + l_3 < 0 \<or> - l_1 + l_2 + l_3 < 0 \<or> odd (l_1 + l_2 + l_3) \<or>
             m_1 + m_2 + m_3 \<noteq> 0 \<or> \<bar>m_1\<bar> > l_1 \<or> \<bar>m_2\<bar> > l_2 \<or> \<bar>m_3\<bar> > l_3) \<longrightarrow>
            fst (gaunt (of_int l_1) (of_int l_2) (of_int l_3) (of_int m_1) (of_int m_2) (of_int m_3) fl) =
              Inr (gaunt_formula l_1 l_2 l_3 m_1 m_2 m_3))"
proof -
  obtain m where m: "0 < m" "fl = factorials m"
    using reachable_factorials [OF assms] by blast
  let ?z = "l_1 + l_2 - l_3 < 0 \<or> l_1 - l_2 + l_3 < 0 \<or> - l_1 + l_2 + l_3 < 0 \<or> odd (l_1 + l_2 + l_3) \<or>
          m_1 + m_2 + m_3 \<noteq> 0 \<or> \<bar>m_1\<bar> > l_1 \<or> \<bar>m_2\<bar> > l_2 \<or> \<bar>m_3\<bar> > l_3"
  have 1: "gaunt_Integer l_1 l_2 l_3 m_1 m_2 m_3 fl = (Inr 0, fl)" if "?z"
    using that by (rule gaunt_Integer_zero)
  have 2: "fst (gaunt_Integer l_1 l_2 l_3 m_1 m_2 m_3 fl) = Inr (gaunt_formula l_1 l_2 l_3 m_1 m_2 m_3)"
    if "\<not> ?z"
  proof -
    have "\<exists>M\<ge>m. gaunt_Integer l_1 l_2 l_3 m_1 m_2 m_3 (factorials m) =
           (Inr (gaunt_formula l_1 l_2 l_3 m_1 m_2 m_3), factorials M)"
      by (rule gaunt_Integer_computed [OF m(1)]) (use that in simp_all)
    then show ?thesis
      by (auto simp add: m(2))
  qed
  show ?thesis
    unfolding gaunt_of_int using 1 2 by blast
qed

theorem gaunt_selection_rules_and_value_witness:
  "reachable Factlist_init \<and>
   fst (gaunt 1 0 1 1 0 (- 1) Factlist_init) = Inr (- 1 / (2 * sqrt pi)) \<and>
   gaunt 1 0 1 1 0 0 Factlist_init = (Inr 0, Factlist_init) \<and>
   gaunt 1 2 2 1 0 (- 1) Factlist_init = (Inr 0, Factlist_init)"
proof -
  have "[0 .. 0 :: int] = [0]"
    by (simp add: upto_rec1)
  then have s: "gaunt_sum 1 0 1 1 0 = 1 / 2"
    by (simp add: gaunt_sum_def fact_numeral)
  have p: "gaunt_prefac 1 0 1 = 1 / 3"
    by (simp add: gaunt_prefac_def fact_numeral)
  have "gaunt_radicand 1 0 1 1 0 (- 1) = 3\<^sup>2 / pi"
    by (simp add: gaunt_radicand_def fact_numeral)
  then have r: "sqrt (gaunt_radicand 1 0 1 1 0 (- 1)) = 3 / sqrt pi"
    by (simp only: real_sqrt_divide real_sqrt_abs abs_numeral)
  have f: "gaunt_formula 1 0 1 1 0 (- 1) = - 1 / (2 * sqrt pi)"
    unfolding gaunt_formula_def r p s by (simp add: of_rat_divide)
  have a: "fst (gaunt 1 0 1 1 0 (- 1) Factlist_init) = Inr (- 1 / (2 * sqrt pi))"
    using gaunt_selection_rules_and_value [OF reachable.init, of 1 0 1 1 0 "- 1"]
    by (simp add: f)
  have b: "gaunt 1 0 1 1 0 0 Factlist_init = (Inr 0, Factlist_init)"
    using gaunt_selection_rules_and_value [OF reachable.init, of 1 0 1 1 0 0] by simp
  have c: "gaunt 1 2 2 1 0 (- 1) Factlist_init = (Inr 0, Factlist_init)"
    using gaunt_selection_rules_and_value [OF reachable.init, of 1 2 2 1 0 "- 1"] by simp
  show ?thesis
    using a b c reachable.init by simp
qed

subsection \<open>The symmetries of \<open>wigner_3j\<close>\<close>

lemma bc_Suc: "bc (Suc n) k = bc n k + bc n (k - 1)"
proof -
  consider "k < 0" | "k = 0" | "0 < k" by linarith
  then show ?thesis
  proof cases
    case 3
    define i where "i = nat (k - 1)"
    have "nat k = Suc i" "nat (k - 1) = i" "\<not> k < 0" "\<not> k - 1 < 0"
      using 3 by (simp_all add: i_def)
    then show ?thesis
      by (simp add: bc_def)
  qed (simp_all add: bc_def)
qed

lemma bc_0: "bc 0 k = (if k = 0 then 1 else 0)"
  by (cases "k < 0") (auto simp add: bc_def)

lemma bc_gt: "int n < k \<Longrightarrow> bc n k = 0"
  by (simp add: bc_def)

lemma bc_neg: "k < 0 \<Longrightarrow> bc n k = 0"
  by (simp add: bc_def)

lemma bc_sym: "bc n (int n - k) = bc n k"
proof -
  consider "k < 0" | "int n < k" | "0 \<le> k" "k \<le> int n" by linarith
  then show ?thesis
  proof cases
    case 3
    then have "nat (int n - k) = n - nat k" "nat k \<le> n"
      by simp_all
    then show ?thesis
      using 3 by (simp add: bc_def binomial_symmetric [symmetric])
  qed (simp_all add: bc_def)
qed


lemma triple_sum_Suc1:
  "triple_sum (Suc n1) n2 n3 p q = triple_sum n1 n2 n3 p q + triple_sum n1 n2 n3 p (q - 1)"
  by (simp add: triple_sum_def bc_Suc algebra_simps sum.distrib)

lemma triple_sum_Suc2:
  "triple_sum n1 (Suc n2) n3 p q = triple_sum n1 n2 n3 p q + triple_sum n1 n2 n3 (p - 1) q"
  by (simp add: triple_sum_def bc_Suc algebra_simps sum.distrib)

lemma triple_sum_Suc3:
  "triple_sum n1 n2 (Suc n3) p q = triple_sum n1 n2 n3 p q - triple_sum n1 n2 n3 (p - 1) (q - 1)"
proof -
  let ?g = "\<lambda>k. (- 1) ^ k * bc n3 (int k) * bc n2 (p - int k) * bc n1 (q - int k)"
  let ?h = "\<lambda>k. (- 1) ^ k * bc n3 (int k - 1) * bc n2 (p - int k) * bc n1 (q - int k)"
  have "triple_sum n1 n2 (Suc n3) p q = (\<Sum>k\<le>Suc n3. ?g k + ?h k)"
    by (simp add: triple_sum_def bc_Suc algebra_simps)
  also have "\<dots> = (\<Sum>k\<le>Suc n3. ?g k) + (\<Sum>k\<le>Suc n3. ?h k)"
    by (rule sum.distrib)
  also have "(\<Sum>k\<le>Suc n3. ?g k) = triple_sum n1 n2 n3 p q"
    by (simp add: triple_sum_def bc_gt)
  also have "(\<Sum>k\<le>Suc n3. ?h k) = ?h 0 + (\<Sum>k\<le>n3. ?h (Suc k))"
    by (rule sum.atMost_Suc_shift)
  also have "?h 0 = 0"
    by (simp add: bc_neg)
  also have "(\<Sum>k\<le>n3. ?h (Suc k)) = - triple_sum n1 n2 n3 (p - 1) (q - 1)"
    by (simp add: triple_sum_def sum_negf [symmetric] algebra_simps)
  finally show ?thesis
    by simp
qed

lemma triple_sum'_Suc3:
  "triple_sum' n1 n2 (Suc n3) p q = triple_sum' n1 n2 n3 p q + triple_sum' n1 n2 n3 (p - 1) (q - 1)"
  by (simp add: triple_sum'_def bc_Suc algebra_simps sum.distrib)

lemma triple_sum'_Suc2:
  "triple_sum' n1 (Suc n2) n3 p q = triple_sum' n1 n2 n3 p q + triple_sum' n1 n2 n3 (p - 1) q"
  by (simp add: triple_sum'_def bc_Suc algebra_simps sum.distrib)

lemma triple_sum'_Suc1:
  "triple_sum' (Suc n1) n2 n3 p q = triple_sum' n1 n2 n3 p q - triple_sum' n1 n2 n3 p (q - 1)"
proof -
  let ?g = "\<lambda>k. (- 1) ^ k * bc n1 (int k) * bc n3 (q - int k) * bc n2 (p - q + int k)"
  let ?h = "\<lambda>k. (- 1) ^ k * bc n1 (int k - 1) * bc n3 (q - int k) * bc n2 (p - q + int k)"
  have "triple_sum' (Suc n1) n2 n3 p q = (\<Sum>k\<le>Suc n1. ?g k + ?h k)"
    by (simp add: triple_sum'_def bc_Suc algebra_simps)
  also have "\<dots> = (\<Sum>k\<le>Suc n1. ?g k) + (\<Sum>k\<le>Suc n1. ?h k)"
    by (rule sum.distrib)
  also have "(\<Sum>k\<le>Suc n1. ?g k) = triple_sum' n1 n2 n3 p q"
    by (simp add: triple_sum'_def bc_gt)
  also have "(\<Sum>k\<le>Suc n1. ?h k) = ?h 0 + (\<Sum>k\<le>n1. ?h (Suc k))"
    by (rule sum.atMost_Suc_shift)
  also have "?h 0 = 0"
    by (simp add: bc_neg)
  also have "(\<Sum>k\<le>n1. ?h (Suc k)) = - triple_sum' n1 n2 n3 p (q - 1)"
    by (simp add: triple_sum'_def sum_negf [symmetric] algebra_simps)
  finally show ?thesis
    by simp
qed

lemma neg1_pow_pred: "neg1_pow (q - 1) = - neg1_pow q"
  by (simp add: neg1_pow_def)

lemma triple_sum_eq:
  "triple_sum n1 n2 n3 p q = neg1_pow q * triple_sum' n1 n2 n3 p q"
proof (induction n1 arbitrary: p q)
  case 0
  show ?case
  proof (induction n2 arbitrary: p q)
    case 0
    show ?case
    proof (induction n3 arbitrary: p q)
      case 0
      show ?case
        by (auto simp add: triple_sum_def triple_sum'_def bc_0 neg1_pow_def)
    next
      case (Suc n3)
      show ?case
        unfolding triple_sum_Suc3 triple_sum'_Suc3 Suc.IH
        by (simp add: neg1_pow_pred algebra_simps)
    qed
  next
    case (Suc n2)
    show ?case
      unfolding triple_sum_Suc2 triple_sum'_Suc2 Suc.IH
      by (simp add: algebra_simps)
  qed
next
  case (Suc n1)
  show ?case
    unfolding triple_sum_Suc1 triple_sum'_Suc1 Suc.IH
    by (simp add: neg1_pow_pred algebra_simps)
qed

lemma bc_fact:
  assumes "0 \<le> k" "k \<le> int n"
  shows "(of_int (bc n k) :: rat) = fact n / (fact (nat k) * fact (nat (int n - k)))"
proof -
  have "nat k \<le> n" and "nat (int n - k) = n - nat k"
    using assms by simp_all
  then show ?thesis
    using assms(1) binomial_fact [of "nat k" n, where 'a = rat] by (simp add: bc_def)
qed

lemma wigner_3j_sum_triple:
  assumes j: "j1 = of_nat (n2 + n3) / 2" "j2 = of_nat (n1 + n3) / 2" "j3 = of_nat (n1 + n2) / 2"
    and mm: "m1 = j1 - of_int p" "m2 = of_int q - j2"
  shows "wigner_3j_sum j1 j2 j3 m1 m2 =
           of_int (triple_sum n1 n2 n3 p q) / (fact n1 * fact n2 * fact n3)"
proof -
  define N :: rat where "N = fact n1 * fact n2 * fact n3"
  define a where "a = max (max (q - int n1) (p - int n2)) 0"
  define b where "b = min (min q p) (int n3)"
  define G :: "int \<Rightarrow> rat" where
    "G = (\<lambda>k. (- 1) powi k * of_int (bc n3 k * bc n2 (p - k) * bc n1 (q - k)) / N)"
  have x1: "- j3 + j1 + m2 = of_int (q - int n1)" and x2: "- j3 + j2 - m1 = of_int (p - int n2)"
    and x3: "j2 + m2 = of_int q" and x4: "j1 - m1 = of_int p" and x5: "j1 + j2 - j3 = of_int (int n3)"
    unfolding mm j by (simp_all add: field_simps)
  have imin: "py_int (max (max (- j3 + j1 + m2) (- j3 + j2 - m1)) 0) = a"
    unfolding x1 x2 a_def using py_int_of_int [of "max (max (q - int n1) (p - int n2)) 0"]
    by (simp only: of_int_max of_int_0)
  have imax: "py_int (min (min (j2 + m2) (j1 - m1)) (j1 + j2 - j3)) = b"
    unfolding x3 x4 x5 b_def using py_int_of_int [of "min (min q p) (int n3)"]
    by (simp only: of_int_min)
  have tm: "(- 1) powi k /
        (factorial (of_int k) * factorial (of_int k + j3 - j1 - m2) * factorial (j2 + m2 - of_int k) *
         factorial (j1 - of_int k - m1) * factorial (of_int k + j3 - j2 + m1) *
         factorial (j1 + j2 - j3 - of_int k)) = G k" if k: "k \<in> set [a .. b]" for k
  proof -
    have lo: "q - int n1 \<le> k" "p - int n2 \<le> k" "0 \<le> k"
      using k by (simp_all add: a_def)
    have hi: "k \<le> q" "k \<le> p" "k \<le> int n3"
      using k by (simp_all add: b_def)
    have y1: "of_int k + j3 - j1 - m2 = of_int (int n1 - (q - k))"
      and y2: "j2 + m2 - of_int k = of_int (q - k)"
      and y3: "j1 - of_int k - m1 = of_int (p - k)"
      and y4: "of_int k + j3 - j2 + m1 = of_int (int n2 - (p - k))"
      and y5: "j1 + j2 - j3 - of_int k = of_int (int n3 - k)"
      unfolding mm j by (simp_all add: field_simps)
    have f1: "(of_int (bc n3 k) :: rat) = fact n3 / (fact (nat k) * fact (nat (int n3 - k)))"
      using lo(3) hi(3) by (rule bc_fact)
    have f2: "(of_int (bc n2 (p - k)) :: rat) = fact n2 / (fact (nat (p - k)) * fact (nat (int n2 - (p - k))))"
      by (rule bc_fact) (use lo hi in simp_all)
    have f3: "(of_int (bc n1 (q - k)) :: rat) = fact n1 / (fact (nat (q - k)) * fact (nat (int n1 - (q - k))))"
      by (rule bc_fact) (use lo hi in simp_all)
    show ?thesis
      unfolding G_def N_def of_int_mult f1 f2 f3 y1 y2 y3 y4 y5 factorial_of_int
      by (simp add: field_simps)
  qed
  have "wigner_3j_sum j1 j2 j3 m1 m2 = sum_list (map G [a .. b])"
    unfolding wigner_3j_sum_def imin imax
    by (rule arg_cong [where f = sum_list]) (simp add: tm)
  also have "\<dots> = sum G {a .. b}"
    by (simp add: sum_list_distinct_conv_sum_set)
  also have "\<dots> = sum G {0 .. int n3}"
  proof (rule sum.mono_neutral_left)
    show "finite {0 .. int n3}"
      by simp
    show "{a .. b} \<subseteq> {0 .. int n3}"
      by (auto simp add: a_def b_def)
    show "\<forall>k\<in>{0 .. int n3} - {a .. b}. G k = 0"
    proof
      fix k assume "k \<in> {0 .. int n3} - {a .. b}"
      then have "0 \<le> k" "k \<le> int n3" "k < a \<or> b < k"
        by auto
      then have "int n1 < q - k \<or> int n2 < p - k \<or> q - k < 0 \<or> p - k < 0"
        unfolding a_def b_def by linarith
      then have "bc n1 (q - k) = 0 \<or> bc n2 (p - k) = 0"
        using bc_gt bc_neg by blast
      then show "G k = 0"
        by (auto simp add: G_def)
    qed
  qed
  also have "{0 .. int n3} = int ` {0 .. n3}"
    by (simp add: image_int_atLeastAtMost)
  also have "sum G (int ` {0 .. n3}) = (\<Sum>i\<in>{0 .. n3}. G (int i))"
    by (rule sum.reindex_cong [where l = int]) simp_all
  also have "\<dots> = of_int (triple_sum n1 n2 n3 p q) / N"
    unfolding triple_sum_def G_def
    by (simp add: atMost_atLeast0 sum_divide_distrib mult.assoc)
  finally show ?thesis
    by (simp only: N_def)
qed

lemma sum_atMost_rev: "(\<Sum>k\<le>n. f k) = (\<Sum>k\<le>n. f (n - k))" for f :: "nat \<Rightarrow> int"
  using sum.atLeastAtMost_rev [of f 0 n] by (simp add: atMost_atLeast0)

lemma triple_sum_swap: "triple_sum n2 n1 n3 P Q = triple_sum n1 n2 n3 Q P"
  by (simp add: triple_sum_def mult.commute mult.left_commute)

lemma triple_sum_reflect:
  "triple_sum n1 n2 n3 (int n2 + int n3 - p) (int n1 + int n3 - q) =
     (- 1) ^ n3 * triple_sum n1 n2 n3 p q"
proof -
  let ?f = "\<lambda>k. (- 1) ^ k * bc n3 (int k) * bc n2 (int n2 + int n3 - p - int k) *
                 bc n1 (int n1 + int n3 - q - int k)"
  have "?f (n3 - k) = (- 1) ^ n3 * ((- 1) ^ k * bc n3 (int k) * bc n2 (p - int k) * bc n1 (q - int k))"
    if "k \<le> n3" for k
  proof -
    have a: "int (n3 - k) = int n3 - int k"
      using that by simp
    have b: "int n2 + int n3 - p - (int n3 - int k) = int n2 - (p - int k)"
      "int n1 + int n3 - q - (int n3 - int k) = int n1 - (q - int k)"
      by simp_all
    have "(- 1 :: int) ^ n3 = (- 1) ^ (n3 - k) * (- 1) ^ k"
      using that by (simp add: power_add [symmetric])
    then have c: "(- 1 :: int) ^ (n3 - k) = (- 1) ^ n3 * (- 1) ^ k"
      by (simp add: mult.assoc power_mult_distrib [symmetric])
    show ?thesis
      unfolding a b bc_sym c by (simp add: mult.assoc)
  qed
  then have "(\<Sum>k\<le>n3. ?f (n3 - k)) =
       (\<Sum>k\<le>n3. (- 1) ^ n3 * ((- 1) ^ k * bc n3 (int k) * bc n2 (p - int k) * bc n1 (q - int k)))"
    by (intro sum.cong) simp_all
  then show ?thesis
    unfolding triple_sum_def sum_atMost_rev [of ?f] by (simp only: sum_distrib_left)
qed

lemma triple_sum_rotate:
  "triple_sum n2 n3 n1 (int n1 + int n3 - q) (int n1 + p - q) =
     (- 1) ^ n1 * triple_sum' n1 n2 n3 p q"
proof -
  let ?f = "\<lambda>k. (- 1) ^ k * bc n1 (int k) * bc n3 (int n1 + int n3 - q - int k) *
                 bc n2 (int n1 + p - q - int k)"
  have "?f (n1 - k) = (- 1) ^ n1 * ((- 1) ^ k * bc n1 (int k) * bc n3 (q - int k) * bc n2 (p - q + int k))"
    if "k \<le> n1" for k
  proof -
    have a: "int (n1 - k) = int n1 - int k"
      using that by simp
    have b: "int n1 + int n3 - q - (int n1 - int k) = int n3 - (q - int k)"
      "int n1 + p - q - (int n1 - int k) = p - q + int k"
      by simp_all
    have "(- 1 :: int) ^ n1 = (- 1) ^ (n1 - k) * (- 1) ^ k"
      using that by (simp add: power_add [symmetric])
    then have c: "(- 1 :: int) ^ (n1 - k) = (- 1) ^ n1 * (- 1) ^ k"
      by (simp add: mult.assoc power_mult_distrib [symmetric])
    show ?thesis
      unfolding a b bc_sym c by (simp add: mult.assoc)
  qed
  then have "(\<Sum>k\<le>n1. ?f (n1 - k)) =
       (\<Sum>k\<le>n1. (- 1) ^ n1 * ((- 1) ^ k * bc n1 (int k) * bc n3 (q - int k) * bc n2 (p - q + int k)))"
    by (intro sum.cong) simp_all
  then show ?thesis
    unfolding triple_sum_def triple_sum'_def sum_atMost_rev [of ?f] by (simp only: sum_distrib_left)
qed

lemma neg1_pow_add: "neg1_pow (a + b) = neg1_pow a * neg1_pow b"
  by (simp add: neg1_pow_def)

lemma neg1_pow_cong: "even (a - b) \<Longrightarrow> neg1_pow a = neg1_pow b"
  by (simp add: neg1_pow_def)

lemma neg1_pow_nat: "(- 1) ^ n = neg1_pow (int n)"
  by (simp add: neg1_pow_def uminus_power_if)

lemma neg1_pow_square: "neg1_pow a * neg1_pow a = 1"
  by (simp add: neg1_pow_def)

lemma signed_triple_sum_rotate:
  "neg1_pow (int n2 + int n3 + (int n1 + int n3 - q) + (int n1 + p - q)) *
     triple_sum n2 n3 n1 (int n1 + int n3 - q) (int n1 + p - q) =
   neg1_pow (int n1 + int n2 + p + q) * triple_sum n1 n2 n3 p q"
proof -
  have "neg1_pow (int n2 + int n3 + (int n1 + int n3 - q) + (int n1 + p - q)) * neg1_pow (int n1) =
          neg1_pow (int n1 + int n2 + p + q) * neg1_pow q"
    unfolding neg1_pow_add [symmetric] by (rule neg1_pow_cong) simp
  then show ?thesis
    unfolding triple_sum_rotate triple_sum_eq [of n1 n2 n3 p q] neg1_pow_nat
    by (metis mult.assoc)
qed

lemma signed_triple_sum_reflect:
  "neg1_pow (int n1 + int n2 + (int n2 + int n3 - p) + (int n1 + int n3 - q)) *
     triple_sum n1 n2 n3 (int n2 + int n3 - p) (int n1 + int n3 - q) =
   neg1_pow (int n1 + int n2 + int n3) * (neg1_pow (int n1 + int n2 + p + q) * triple_sum n1 n2 n3 p q)"
proof -
  have "neg1_pow (int n1 + int n2 + (int n2 + int n3 - p) + (int n1 + int n3 - q)) * neg1_pow (int n3) =
          neg1_pow (int n1 + int n2 + int n3) * neg1_pow (int n1 + int n2 + p + q)"
    unfolding neg1_pow_add [symmetric] by (rule neg1_pow_cong) simp
  then show ?thesis
    unfolding triple_sum_reflect neg1_pow_nat
    by (metis mult.assoc)
qed

lemma signed_triple_sum_transpose:
  "neg1_pow (int n2 + int n1 + (int n1 + int n3 - q) + (int n2 + int n3 - p)) *
     triple_sum n2 n1 n3 (int n1 + int n3 - q) (int n2 + int n3 - p) =
   neg1_pow (int n1 + int n2 + int n3) * (neg1_pow (int n1 + int n2 + p + q) * triple_sum n1 n2 n3 p q)"
proof -
  have eq: "int n2 + int n1 + (int n1 + int n3 - q) + (int n2 + int n3 - p) =
        int n1 + int n2 + (int n2 + int n3 - p) + (int n1 + int n3 - q)"
    by simp
  show ?thesis
    unfolding triple_sum_swap [of n2 n1] eq by (rule signed_triple_sum_reflect)
qed

lemma of_rat_fact: "(of_rat (fact n) :: real) = fact n"
  by (metis of_nat_fact of_rat_of_nat_eq)

lemma wigner_3j_formula_params:
  assumes j: "j1 = of_nat (n2 + n3) / 2" "j2 = of_nat (n1 + n3) / 2" "j3 = of_nat (n1 + n2) / 2"
    and mm: "m1 = j1 - of_int p" "m2 = of_int q - j2" and m3: "m3 = - m1 - m2"
  shows "wigner_3j_formula j1 j2 j3 m1 m2 m3 =
     sqrt (of_rat (wigner_3j_radicand j1 j2 j3 m1 m2 (- m3))) *
     (of_int (neg1_pow (int n1 + int n2 + p + q) * triple_sum n1 n2 n3 p q) /
      (fact n1 * fact n2 * fact n3))"
proof -
  have "j1 - j2 - m3 = of_int (int n2 - int n1 - p + q)"
    unfolding m3 mm j by (simp add: field_simps)
  then have "py_int (j1 - j2 - m3) = int n2 - int n1 - p + q"
    by (simp only: py_int_of_int)
  moreover have "neg1_pow (int n2 - int n1 - p + q) = neg1_pow (int n1 + int n2 + p + q)"
    by (rule neg1_pow_cong) simp
  ultimately have sg: "(- 1) powi py_int (j1 - j2 - m3) = (of_int (neg1_pow (int n1 + int n2 + p + q)) :: real)"
    by (simp only: neg1_pow_powi [symmetric])
  show ?thesis
    unfolding wigner_3j_formula_def sg wigner_3j_sum_triple [OF j mm]
    by (simp add: of_rat_divide of_rat_mult of_rat_fact)
qed

lemma wigner_3j_radicand_sym:
  "wigner_3j_radicand j2 j3 j1 m2 m3 (- m1) = wigner_3j_radicand j1 j2 j3 m1 m2 (- m3)"
  "wigner_3j_radicand j2 j1 j3 m2 m1 (- m3) = wigner_3j_radicand j1 j2 j3 m1 m2 (- m3)"
  "wigner_3j_radicand j1 j2 j3 (- m1) (- m2) (- (- m3)) = wigner_3j_radicand j1 j2 j3 m1 m2 (- m3)"
proof -
  have a: "j2 + j3 - j1 = - j1 + j2 + j3" "j2 - j3 + j1 = j1 + j2 - j3" "- j2 + j3 + j1 = j1 - j2 + j3"
    "j2 + j3 + j1 + 1 = j1 + j2 + j3 + 1" "j2 + j1 - j3 = j1 + j2 - j3" "j2 - j1 + j3 = - j1 + j2 + j3"
    "- j2 + j1 + j3 = j1 - j2 + j3" "j2 + j1 + j3 + 1 = j1 + j2 + j3 + 1"
    by simp_all
  have b: "x - - y = x + y" "x + - y = x - y" for x y :: rat
    by simp_all
  show "wigner_3j_radicand j2 j3 j1 m2 m3 (- m1) = wigner_3j_radicand j1 j2 j3 m1 m2 (- m3)"
    unfolding wigner_3j_radicand_def a b by (simp add: mult_ac)
  show "wigner_3j_radicand j2 j1 j3 m2 m1 (- m3) = wigner_3j_radicand j1 j2 j3 m1 m2 (- m3)"
    unfolding wigner_3j_radicand_def a b by (simp add: mult_ac)
  show "wigner_3j_radicand j1 j2 j3 (- m1) (- m2) (- (- m3)) = wigner_3j_radicand j1 j2 j3 m1 m2 (- m3)"
    unfolding wigner_3j_radicand_def a b by (simp add: mult_ac)
qed

lemma wigner_3j_formula_sym:
  assumes j: "j1 = of_nat (n2 + n3) / 2" "j2 = of_nat (n1 + n3) / 2" "j3 = of_nat (n1 + n2) / 2"
    and mm: "m1 = j1 - of_int p" "m2 = of_int q - j2" and m3: "m3 = - m1 - m2"
  shows "wigner_3j_formula j2 j3 j1 m2 m3 m1 = wigner_3j_formula j1 j2 j3 m1 m2 m3"
    and "wigner_3j_formula j2 j1 j3 m2 m1 m3 =
           of_int (neg1_pow (int n1 + int n2 + int n3)) * wigner_3j_formula j1 j2 j3 m1 m2 m3"
    and "wigner_3j_formula j1 j2 j3 (- m1) (- m2) (- m3) =
           of_int (neg1_pow (int n1 + int n2 + int n3)) * wigner_3j_formula j1 j2 j3 m1 m2 m3"
proof -
  note base = wigner_3j_formula_params [OF j mm m3]
  have c1: "j2 = of_nat (n3 + n1) / 2" "j3 = of_nat (n2 + n1) / 2" "j1 = of_nat (n2 + n3) / 2"
    "m2 = j2 - of_int (int n1 + int n3 - q)" "m3 = of_int (int n1 + p - q) - j3" "m1 = - m2 - m3"
    unfolding m3 mm j by (simp_all add: field_simps)
  have "wigner_3j_formula j2 j3 j1 m2 m3 m1 =
     sqrt (of_rat (wigner_3j_radicand j2 j3 j1 m2 m3 (- m1))) *
     (of_int (neg1_pow (int n2 + int n3 + (int n1 + int n3 - q) + (int n1 + p - q)) *
              triple_sum n2 n3 n1 (int n1 + int n3 - q) (int n1 + p - q)) /
      (fact n2 * fact n3 * fact n1))"
    by (rule wigner_3j_formula_params [OF c1])
  then show "wigner_3j_formula j2 j3 j1 m2 m3 m1 = wigner_3j_formula j1 j2 j3 m1 m2 m3"
    unfolding base signed_triple_sum_rotate wigner_3j_radicand_sym by (simp add: mult_ac)
  have c2: "j2 = of_nat (n1 + n3) / 2" "j1 = of_nat (n2 + n3) / 2" "j3 = of_nat (n2 + n1) / 2"
    "m2 = j2 - of_int (int n1 + int n3 - q)" "m1 = of_int (int n2 + int n3 - p) - j1" "m3 = - m2 - m1"
    unfolding m3 mm j by (simp_all add: field_simps)
  have "wigner_3j_formula j2 j1 j3 m2 m1 m3 =
     sqrt (of_rat (wigner_3j_radicand j2 j1 j3 m2 m1 (- m3))) *
     (of_int (neg1_pow (int n2 + int n1 + (int n1 + int n3 - q) + (int n2 + int n3 - p)) *
              triple_sum n2 n1 n3 (int n1 + int n3 - q) (int n2 + int n3 - p)) /
      (fact n2 * fact n1 * fact n3))"
    by (rule wigner_3j_formula_params [OF c2])
  then show "wigner_3j_formula j2 j1 j3 m2 m1 m3 =
           of_int (neg1_pow (int n1 + int n2 + int n3)) * wigner_3j_formula j1 j2 j3 m1 m2 m3"
    unfolding base signed_triple_sum_transpose wigner_3j_radicand_sym by (simp add: mult_ac)
  have c3: "- m1 = j1 - of_int (int n2 + int n3 - p)" "- m2 = of_int (int n1 + int n3 - q) - j2"
    "- m3 = - (- m1) - (- m2)"
    unfolding m3 mm j by (simp_all add: field_simps)
  have "wigner_3j_formula j1 j2 j3 (- m1) (- m2) (- m3) =
     sqrt (of_rat (wigner_3j_radicand j1 j2 j3 (- m1) (- m2) (- (- m3)))) *
     (of_int (neg1_pow (int n1 + int n2 + (int n2 + int n3 - p) + (int n1 + int n3 - q)) *
              triple_sum n1 n2 n3 (int n2 + int n3 - p) (int n1 + int n3 - q)) /
      (fact n1 * fact n2 * fact n3))"
    by (rule wigner_3j_formula_params [OF j c3])
  then show "wigner_3j_formula j1 j2 j3 (- m1) (- m2) (- m3) =
           of_int (neg1_pow (int n1 + int n2 + int n3)) * wigner_3j_formula j1 j2 j3 m1 m2 m3"
    unfolding base signed_triple_sum_reflect wigner_3j_radicand_sym by (simp add: mult_ac)
qed

lemma physical_params:
  assumes vj: "is_integral (2 * j1)" "is_integral (2 * j2)" "is_integral (2 * j3)"
    and jm: "is_integral (j1 - m1)" "is_integral (j2 - m2)" "is_integral (j3 - m3)"
    and msum: "m1 + m2 + m3 = 0"
    and tri: "0 \<le> j1 + j2 - j3" "0 \<le> j1 - j2 + j3" "0 \<le> - j1 + j2 + j3"
  obtains n1 n2 n3 p q where "j1 = of_nat (n2 + n3) / 2" "j2 = of_nat (n1 + n3) / 2"
    "j3 = of_nat (n1 + n2) / 2" "m1 = j1 - of_int p" "m2 = of_int q - j2" "m3 = - m1 - m2"
    "j1 + j2 + j3 = of_int (int n1 + int n2 + int n3)"
proof -
  have "is_integral ((j1 - m1) + (j2 - m2) + (j3 - m3))"
    by (intro is_integral_add jm)
  moreover have "(j1 - m1) + (j2 - m2) + (j3 - m3) = j1 + j2 + j3"
    using msum by simp
  ultimately have J: "is_integral (j1 + j2 + j3)"
    by (simp only:)
  have "is_integral (j1 + j2 + j3 - 2 * j3)" "is_integral (j1 + j2 + j3 - 2 * j2)"
    "is_integral (j1 + j2 + j3 - 2 * j1)" "is_integral (2 * j2 - (j2 - m2))"
    by (intro is_integral_diff J vj jm)+
  then have "is_integral (j1 + j2 - j3)" "is_integral (j1 - j2 + j3)" "is_integral (- j1 + j2 + j3)"
    "is_integral (j2 + m2)"
    by (simp_all add: algebra_simps)
  then obtain a3 a2 a1 q where a: "j1 + j2 - j3 = of_int a3" "j1 - j2 + j3 = of_int a2"
    "- j1 + j2 + j3 = of_int a1" "j2 + m2 = of_int q"
    by (metis is_integralE)
  obtain p where p: "j1 - m1 = of_int p"
    using jm(1) by (rule is_integralE)
  have "0 \<le> a3" "0 \<le> a2" "0 \<le> a1"
    using tri unfolding a by simp_all
  then have "(of_int a3 :: rat) = of_nat (nat a3)" "(of_int a2 :: rat) = of_nat (nat a2)"
    "(of_int a1 :: rat) = of_nat (nat a1)"
    by simp_all
  then obtain n3 n2 n1 :: nat where n: "j1 + j2 - j3 = of_nat n3" "j1 - j2 + j3 = of_nat n2"
    "- j1 + j2 + j3 = of_nat n1"
    using a(1-3) by metis
  have "j1 = of_nat (n2 + n3) / 2" "j2 = of_nat (n1 + n3) / 2" "j3 = of_nat (n1 + n2) / 2"
    using n by (simp_all add: field_simps)
  moreover have "m1 = j1 - of_int p" "m2 = of_int q - j2" "m3 = - m1 - m2"
    using p a(4) msum by (simp_all add: algebra_simps)
  moreover have "j1 + j2 + j3 = of_int (int n1 + int n2 + int n3)"
    using n by (simp add: field_simps)
  ultimately show ?thesis
    by (rule that)
qed

lemma wigner_3j_physical:
  assumes m: "0 < m"
    and vj: "is_integral (2 * j1)" "is_integral (2 * j2)" "is_integral (2 * j3)"
    and vm: "is_integral (2 * m1)" "is_integral (2 * m2)" "is_integral (2 * m3)"
    and jm: "is_integral (j1 - m1)" "is_integral (j2 - m2)" "is_integral (j3 - m3)"
  shows "fst (wigner_3j j1 j2 j3 m1 m2 m3 (factorials m)) = Inr (wigner_3j_value j1 j2 j3 m1 m2 m3)"
proof (cases "m1 + m2 + m3 = 0 \<and> 0 \<le> j1 + j2 - j3 \<and> 0 \<le> j1 - j2 + j3 \<and> 0 \<le> - j1 + j2 + j3 \<and>
         \<bar>m1\<bar> \<le> j1 \<and> \<bar>m2\<bar> \<le> j2 \<and> \<bar>m3\<bar> \<le> j3")
  case True
  have "is_integral ((j1 - m1) + (j2 - m2) + (j3 - m3))"
    by (intro is_integral_add jm)
  moreover have "(j1 - m1) + (j2 - m2) + (j3 - m3) = j1 + j2 + j3"
    using True by simp
  ultimately have "is_integral (j1 + j2 + j3)"
    by (simp only:)
  then obtain J where J: "j1 + j2 + j3 = of_int J"
    by (rule is_integralE)
  have "wigner_3j j1 j2 j3 m1 m2 m3 (factorials m) =
          (Inr (wigner_3j_formula j1 j2 j3 m1 m2 m3), factorials (max m (nat J + 2)))"
    by (rule wigner_3j_computed [OF m _ _ _ _ _ _ _ _ _ _ _ _ _ J])
      (use True vj vm in \<open>simp_all add: mult.commute\<close>)
  then show ?thesis
    unfolding wigner_3j_value_def by (simp only: if_P [OF True] fst_conv)
next
  case False
  then have "m1 + m2 + m3 \<noteq> 0 \<or> j1 + j2 - j3 < 0 \<or> j1 - j2 + j3 < 0 \<or> - j1 + j2 + j3 < 0 \<or>
         j1 < \<bar>m1\<bar> \<or> j2 < \<bar>m2\<bar> \<or> j3 < \<bar>m3\<bar>"
    by auto
  then have "wigner_3j j1 j2 j3 m1 m2 m3 (factorials m) = (Inr 0, factorials m)"
    by (intro wigner_3j_zero) (use vj vm in \<open>simp_all add: mult.commute\<close>)
  then show ?thesis
    unfolding wigner_3j_value_def by (simp only: if_not_P [OF False] fst_conv)
qed

lemma wigner_3j_value_sym:
  assumes vj: "is_integral (2 * j1)" "is_integral (2 * j2)" "is_integral (2 * j3)"
    and jm: "is_integral (j1 - m1)" "is_integral (j2 - m2)" "is_integral (j3 - m3)"
  shows "wigner_3j_value j2 j3 j1 m2 m3 m1 = wigner_3j_value j1 j2 j3 m1 m2 m3"
    and "wigner_3j_value j2 j1 j3 m2 m1 m3 =
           (- 1) powi py_int (j1 + j2 + j3) * wigner_3j_value j1 j2 j3 m1 m2 m3"
    and "wigner_3j_value j1 j2 j3 (- m1) (- m2) (- m3) =
           (- 1) powi py_int (j1 + j2 + j3) * wigner_3j_value j1 j2 j3 m1 m2 m3"
proof -
  let ?sel = "m1 + m2 + m3 = 0 \<and> 0 \<le> j1 + j2 - j3 \<and> 0 \<le> j1 - j2 + j3 \<and> 0 \<le> - j1 + j2 + j3 \<and>
         \<bar>m1\<bar> \<le> j1 \<and> \<bar>m2\<bar> \<le> j2 \<and> \<bar>m3\<bar> \<le> j3"
  have s1: "(m2 + m3 + m1 = 0 \<and> 0 \<le> j2 + j3 - j1 \<and> 0 \<le> j2 - j3 + j1 \<and> 0 \<le> - j2 + j3 + j1 \<and>
         \<bar>m2\<bar> \<le> j2 \<and> \<bar>m3\<bar> \<le> j3 \<and> \<bar>m1\<bar> \<le> j1) \<longleftrightarrow> ?sel"
    by auto
  have s2: "(m2 + m1 + m3 = 0 \<and> 0 \<le> j2 + j1 - j3 \<and> 0 \<le> j2 - j1 + j3 \<and> 0 \<le> - j2 + j1 + j3 \<and>
         \<bar>m2\<bar> \<le> j2 \<and> \<bar>m1\<bar> \<le> j1 \<and> \<bar>m3\<bar> \<le> j3) \<longleftrightarrow> ?sel"
    by auto
  have s3: "(- m1 + - m2 + - m3 = 0 \<and> 0 \<le> j1 + j2 - j3 \<and> 0 \<le> j1 - j2 + j3 \<and> 0 \<le> - j1 + j2 + j3 \<and>
         \<bar>- m1\<bar> \<le> j1 \<and> \<bar>- m2\<bar> \<le> j2 \<and> \<bar>- m3\<bar> \<le> j3) \<longleftrightarrow> ?sel"
    by auto
  show "wigner_3j_value j2 j3 j1 m2 m3 m1 = wigner_3j_value j1 j2 j3 m1 m2 m3"
    and "wigner_3j_value j2 j1 j3 m2 m1 m3 =
           (- 1) powi py_int (j1 + j2 + j3) * wigner_3j_value j1 j2 j3 m1 m2 m3"
    and "wigner_3j_value j1 j2 j3 (- m1) (- m2) (- m3) =
           (- 1) powi py_int (j1 + j2 + j3) * wigner_3j_value j1 j2 j3 m1 m2 m3"
  proof (atomize (full), cases ?sel)
    case False
    then show "wigner_3j_value j2 j3 j1 m2 m3 m1 = wigner_3j_value j1 j2 j3 m1 m2 m3 \<and>
      wigner_3j_value j2 j1 j3 m2 m1 m3 =
           (- 1) powi py_int (j1 + j2 + j3) * wigner_3j_value j1 j2 j3 m1 m2 m3 \<and>
      wigner_3j_value j1 j2 j3 (- m1) (- m2) (- m3) =
           (- 1) powi py_int (j1 + j2 + j3) * wigner_3j_value j1 j2 j3 m1 m2 m3"
      unfolding wigner_3j_value_def s1 s2 s3
      by (simp only: if_not_P [OF False] if_False mult_zero_right simp_thms)
  next
    case True
    obtain n1 n2 n3 p q where par: "j1 = of_nat (n2 + n3) / 2" "j2 = of_nat (n1 + n3) / 2"
      "j3 = of_nat (n1 + n2) / 2" "m1 = j1 - of_int p" "m2 = of_int q - j2" "m3 = - m1 - m2"
      and J: "j1 + j2 + j3 = of_int (int n1 + int n2 + int n3)"
      using physical_params [OF vj jm] True by metis
    have sg: "(- 1) powi py_int (j1 + j2 + j3) = (of_int (neg1_pow (int n1 + int n2 + int n3)) :: real)"
      unfolding J py_int_of_int by (rule neg1_pow_powi [symmetric])
    show "wigner_3j_value j2 j3 j1 m2 m3 m1 = wigner_3j_value j1 j2 j3 m1 m2 m3 \<and>
      wigner_3j_value j2 j1 j3 m2 m1 m3 =
           (- 1) powi py_int (j1 + j2 + j3) * wigner_3j_value j1 j2 j3 m1 m2 m3 \<and>
      wigner_3j_value j1 j2 j3 (- m1) (- m2) (- m3) =
           (- 1) powi py_int (j1 + j2 + j3) * wigner_3j_value j1 j2 j3 m1 m2 m3"
      unfolding wigner_3j_value_def s1 s2 s3 sg
      by (simp only: if_P [OF True] if_True wigner_3j_formula_sym [OF par] simp_thms)
  qed
qed

lemma neg1_powi_square: "(- 1) powi k * ((- 1) powi k * x) = (x :: real)"
proof -
  have "(- 1) powi k * (- 1) powi k = ((- 1) * (- 1) :: real) powi k"
    by (rule power_int_mult_distrib [symmetric])
  then have "(- 1) powi k * (- 1) powi k = (1 :: real)"
    by simp
  then show ?thesis
    by (simp only: mult.assoc [symmetric] mult_1)
qed

lemma wigner_3j_value_symmetries:
  assumes vj: "is_integral (2 * j1)" "is_integral (2 * j2)" "is_integral (2 * j3)"
    and jm: "is_integral (j1 - m1)" "is_integral (j2 - m2)" "is_integral (j3 - m3)"
  defines "s \<equiv> (- 1) powi py_int (j1 + j2 + j3)"
  shows "wigner_3j_value j3 j1 j2 m3 m1 m2 = wigner_3j_value j1 j2 j3 m1 m2 m3"
    and "wigner_3j_value j2 j3 j1 m2 m3 m1 = wigner_3j_value j1 j2 j3 m1 m2 m3"
    and "wigner_3j_value j1 j2 j3 m1 m2 m3 = s * wigner_3j_value j2 j1 j3 m2 m1 m3"
    and "wigner_3j_value j1 j2 j3 m1 m2 m3 = s * wigner_3j_value j3 j2 j1 m3 m2 m1"
    and "wigner_3j_value j1 j2 j3 m1 m2 m3 = s * wigner_3j_value j1 j3 j2 m1 m3 m2"
    and "wigner_3j_value j1 j2 j3 m1 m2 m3 = s * wigner_3j_value j1 j2 j3 (- m1) (- m2) (- m3)"
proof -
  note a = wigner_3j_value_sym [OF vj jm]
  note b = wigner_3j_value_sym [OF vj(2,3,1) jm(2,3,1)]
  note c = wigner_3j_value_sym [OF vj(3,1,2) jm(3,1,2)]
  have s2: "py_int (j2 + j3 + j1) = py_int (j1 + j2 + j3)"
    by (simp only: add.commute add.left_commute)
  have s3: "py_int (j3 + j1 + j2) = py_int (j1 + j2 + j3)"
    by (simp only: add.commute add.left_commute)
  show c1: "wigner_3j_value j2 j3 j1 m2 m3 m1 = wigner_3j_value j1 j2 j3 m1 m2 m3"
    by (rule a(1))
  show c2: "wigner_3j_value j3 j1 j2 m3 m1 m2 = wigner_3j_value j1 j2 j3 m1 m2 m3"
    using b(1) c1 by (simp only:)
  show "wigner_3j_value j1 j2 j3 m1 m2 m3 = s * wigner_3j_value j2 j1 j3 m2 m1 m3"
    unfolding s_def a(2) by (rule neg1_powi_square [symmetric])
  show "wigner_3j_value j1 j2 j3 m1 m2 m3 = s * wigner_3j_value j3 j2 j1 m3 m2 m1"
    unfolding s_def b(2) s2 c1 by (rule neg1_powi_square [symmetric])
  show "wigner_3j_value j1 j2 j3 m1 m2 m3 = s * wigner_3j_value j1 j3 j2 m1 m3 m2"
    unfolding s_def c(2) s3 c2 by (rule neg1_powi_square [symmetric])
  show "wigner_3j_value j1 j2 j3 m1 m2 m3 = s * wigner_3j_value j1 j2 j3 (- m1) (- m2) (- m3)"
    unfolding s_def a(3) by (rule neg1_powi_square [symmetric])
qed

lemma is_integral_neg_m:
  assumes "is_integral (2 * m)" "is_integral (j - m)"
  shows "is_integral (2 * - m)" "is_integral (j - - m)"
proof -
  have "is_integral (0 - 2 * m)"
    by (intro is_integral_diff assms) simp
  then show "is_integral (2 * - m)"
    by simp
  have "is_integral ((j - m) + 2 * m)"
    by (intro is_integral_add assms)
  moreover have "(j - m) + 2 * m = j - - m"
    by simp
  ultimately show "is_integral (j - - m)"
    by (simp only:)
qed

text \<open>
  For arguments that pass the validation and with every \<open>j_i - m_i\<close> an integer,
  \<open>wigner_3j\<close> returns (whatever the cache of each call) the same value at the two cyclic
  permutations of the columns, and \<open>(-1)^(j_1+j_2+j_3)\<close> times the value it returns at each
  of the three transpositions of two columns and at the negated magnetic numbers.
\<close>

lemma wigner_3j_symmetries:
  assumes fl: "reachable fl" "reachable fl'"
    and vj: "is_integral (2 * j_1)" "is_integral (2 * j_2)" "is_integral (2 * j_3)"
    and vm: "is_integral (2 * m_1)" "is_integral (2 * m_2)" "is_integral (2 * m_3)"
    and jm: "is_integral (j_1 - m_1)" "is_integral (j_2 - m_2)" "is_integral (j_3 - m_3)"
  shows "\<exists>v t12 t13 t23 r.
    fst (wigner_3j j_1 j_2 j_3 m_1 m_2 m_3 fl) = Inr v \<and>
    fst (wigner_3j j_3 j_1 j_2 m_3 m_1 m_2 fl') = Inr v \<and>
    fst (wigner_3j j_2 j_3 j_1 m_2 m_3 m_1 fl') = Inr v \<and>
    fst (wigner_3j j_2 j_1 j_3 m_2 m_1 m_3 fl') = Inr t12 \<and>
    v = (- 1) powi py_int (j_1 + j_2 + j_3) * t12 \<and>
    fst (wigner_3j j_3 j_2 j_1 m_3 m_2 m_1 fl') = Inr t13 \<and>
    v = (- 1) powi py_int (j_1 + j_2 + j_3) * t13 \<and>
    fst (wigner_3j j_1 j_3 j_2 m_1 m_3 m_2 fl') = Inr t23 \<and>
    v = (- 1) powi py_int (j_1 + j_2 + j_3) * t23 \<and>
    fst (wigner_3j j_1 j_2 j_3 (- m_1) (- m_2) (- m_3) fl') = Inr r \<and>
    v = (- 1) powi py_int (j_1 + j_2 + j_3) * r"
proof -
  obtain m where m: "0 < m" "fl = factorials m"
    using reachable_factorials [OF fl(1)] by blast
  obtain m' where m': "0 < m'" "fl' = factorials m'"
    using reachable_factorials [OF fl(2)] by blast
  note n1 = is_integral_neg_m [OF vm(1) jm(1)]
  note n2 = is_integral_neg_m [OF vm(2) jm(2)]
  note n3 = is_integral_neg_m [OF vm(3) jm(3)]
  note sym = wigner_3j_value_symmetries [OF vj jm]
  have e0: "fst (wigner_3j j_1 j_2 j_3 m_1 m_2 m_3 fl) = Inr (wigner_3j_value j_1 j_2 j_3 m_1 m_2 m_3)"
    unfolding m(2) by (rule wigner_3j_physical [OF m(1) vj vm jm])
  have e1: "fst (wigner_3j j_3 j_1 j_2 m_3 m_1 m_2 fl') = Inr (wigner_3j_value j_1 j_2 j_3 m_1 m_2 m_3)"
    unfolding m'(2) sym(1) [symmetric]
    by (rule wigner_3j_physical [OF m'(1) vj(3,1,2) vm(3,1,2) jm(3,1,2)])
  have e2: "fst (wigner_3j j_2 j_3 j_1 m_2 m_3 m_1 fl') = Inr (wigner_3j_value j_1 j_2 j_3 m_1 m_2 m_3)"
    unfolding m'(2) sym(2) [symmetric]
    by (rule wigner_3j_physical [OF m'(1) vj(2,3,1) vm(2,3,1) jm(2,3,1)])
  have e3: "fst (wigner_3j j_2 j_1 j_3 m_2 m_1 m_3 fl') = Inr (wigner_3j_value j_2 j_1 j_3 m_2 m_1 m_3)"
    unfolding m'(2) by (rule wigner_3j_physical [OF m'(1) vj(2,1,3) vm(2,1,3) jm(2,1,3)])
  have e4: "fst (wigner_3j j_3 j_2 j_1 m_3 m_2 m_1 fl') = Inr (wigner_3j_value j_3 j_2 j_1 m_3 m_2 m_1)"
    unfolding m'(2) by (rule wigner_3j_physical [OF m'(1) vj(3,2,1) vm(3,2,1) jm(3,2,1)])
  have e5: "fst (wigner_3j j_1 j_3 j_2 m_1 m_3 m_2 fl') = Inr (wigner_3j_value j_1 j_3 j_2 m_1 m_3 m_2)"
    unfolding m'(2) by (rule wigner_3j_physical [OF m'(1) vj(1,3,2) vm(1,3,2) jm(1,3,2)])
  have e6: "fst (wigner_3j j_1 j_2 j_3 (- m_1) (- m_2) (- m_3) fl') =
      Inr (wigner_3j_value j_1 j_2 j_3 (- m_1) (- m_2) (- m_3))"
    unfolding m'(2)
    by (rule wigner_3j_physical [OF m'(1) vj n1(1) n2(1) n3(1) n1(2) n2(2) n3(2)])
  show ?thesis
    using e0 e1 e2 e3 sym(3) e4 sym(4) e5 sym(5) e6 sym(6) by blast
qed

lemma py_int_halves:
  "py_int (1 / 2) = 0" "py_int (3 / 2) = 1" "py_int (- 1 / 2) = 0" "py_int (- (1 / 2)) = 0"
  by (simp_all add: py_int_def floor_eq_iff ceiling_eq_iff)

lemma factorial_halves:
  "(factorial (1 / 2) :: rat) = 1" "(factorial (3 / 2) :: rat) = 1" "(factorial (- 1 / 2) :: rat) = 1"
  "(factorial (- (1 / 2)) :: rat) = 1"
  by (simp_all add: factorial_def py_int_halves)

lemma wigner_3j_111_1m10: "wigner_3j_formula 1 1 1 1 (- 1) 0 = sqrt (1 / 6)"
proof -
  have s: "wigner_3j_sum 1 1 1 1 (- 1) = 1"
    by (simp add: wigner_3j_sum_def fact_numeral)
  have r: "wigner_3j_radicand 1 1 1 1 (- 1) (- 0) = 1 / 6"
    by (simp add: wigner_3j_radicand_def fact_numeral)
  show ?thesis
    unfolding wigner_3j_formula_def s r by (simp add: of_rat_divide)
qed

lemma wigner_3j_symmetries_1_1_1:
  "reachable Factlist_init \<and> is_integral (2 * 1) \<and> is_integral (2 * - 1) \<and> is_integral (2 * 0) \<and>
   is_integral (1 - 1) \<and> is_integral (1 - - 1) \<and> is_integral (1 - 0) \<and>
   fst (wigner_3j 1 1 1 1 (- 1) 0 Factlist_init) = Inr (sqrt (1 / 6)) \<and>
   fst (wigner_3j 1 1 1 0 1 (- 1) Factlist_init) = Inr (sqrt (1 / 6)) \<and>
   fst (wigner_3j 1 1 1 (- 1) 0 1 Factlist_init) = Inr (sqrt (1 / 6)) \<and>
   fst (wigner_3j 1 1 1 (- 1) 1 0 Factlist_init) = Inr (- sqrt (1 / 6)) \<and>
   fst (wigner_3j 1 1 1 0 (- 1) 1 Factlist_init) = Inr (- sqrt (1 / 6)) \<and>
   fst (wigner_3j 1 1 1 1 0 (- 1) Factlist_init) = Inr (- sqrt (1 / 6))"
proof -
  have i: "is_integral (2 * 1)" "is_integral (2 * - 1)" "is_integral (2 * 0)"
    "is_integral (1 - 1)" "is_integral (1 - - 1)" "is_integral (1 - 0)"
    by simp_all
  have "wigner_3j 1 1 1 1 (- 1) 0 (factorials 1) =
      (Inr (wigner_3j_formula 1 1 1 1 (- 1) 0), factorials (max 1 (nat 3 + 2)))"
    by (rule wigner_3j_computed) simp_all
  then have v0: "fst (wigner_3j 1 1 1 1 (- 1) 0 Factlist_init) = Inr (sqrt (1 / 6))"
    by (simp only: Factlist_init_factorials wigner_3j_111_1m10 fst_conv)
  have sg: "(- 1) powi py_int (1 + 1 + 1) = (- 1 :: real)"
    by simp
  obtain v t12 t13 t23 r where
    "fst (wigner_3j 1 1 1 1 (- 1) 0 Factlist_init) = Inr v"
    "fst (wigner_3j 1 1 1 0 1 (- 1) Factlist_init) = Inr v"
    "fst (wigner_3j 1 1 1 (- 1) 0 1 Factlist_init) = Inr v"
    "fst (wigner_3j 1 1 1 (- 1) 1 0 Factlist_init) = Inr t12"
    "v = (- 1) powi py_int (1 + 1 + 1) * t12"
    "fst (wigner_3j 1 1 1 0 (- 1) 1 Factlist_init) = Inr t13"
    "v = (- 1) powi py_int (1 + 1 + 1) * t13"
    "fst (wigner_3j 1 1 1 1 0 (- 1) Factlist_init) = Inr t23"
    "v = (- 1) powi py_int (1 + 1 + 1) * t23"
    using wigner_3j_symmetries [OF reachable.init reachable.init i(1,1,1) i(1,2,3) i(4,5,6)]
    by blast
  then show ?thesis
    unfolding sg using v0 i reachable.init by auto
qed

text \<open>
  C9. \<open>wigner_3j\<close> does not check that every \<open>j_i - m_i\<close> is an integer, and \<open>int\<close> truncates
  the indices of the factorials. \<open>j = (1, 1, 1)\<close>, \<open>m = (1/2, -1/2, 0)\<close> and its cyclic
  permutation \<open>m = (0, 1/2, -1/2)\<close> pass the validation and every selection rule;
  \<open>wigner_3j\<close> returns \<open>sqrt(1/24)\<close> at the first and 0 at the second, where the specification
  and the documentation have the same value.
\<close>

theorem wigner_3j_cyclic_permutation_differs:
  "reachable Factlist_init \<and> is_integral (2 * 1) \<and>
   is_integral (2 * (1 / 2)) \<and> is_integral (2 * (- 1 / 2)) \<and> is_integral (2 * 0) \<and>
   fst (wigner_3j 1 1 1 (1 / 2) (- 1 / 2) 0 Factlist_init) = Inr (sqrt (1 / 24)) \<and>
   fst (wigner_3j 1 1 1 0 (1 / 2) (- 1 / 2) Factlist_init) = Inr 0 \<and>
   sqrt (1 / 24) \<noteq> 0"
proof -
  have s1: "wigner_3j_sum 1 1 1 (1 / 2) (- 1 / 2) = 1"
    by (simp add: wigner_3j_sum_def py_int_halves factorial_halves)
  have r1: "wigner_3j_radicand 1 1 1 (1 / 2) (- 1 / 2) (- 0) = 1 / 24"
    by (simp add: wigner_3j_radicand_def py_int_halves factorial_halves fact_numeral)
  have f1: "wigner_3j_formula 1 1 1 (1 / 2) (- 1 / 2) 0 = sqrt (1 / 24)"
    unfolding wigner_3j_formula_def s1 r1 by (simp add: of_rat_divide)
  have u: "[0..1] = [0, 1]"
    by (simp add: upto_rec1)
  have s2: "wigner_3j_sum 1 1 1 0 (1 / 2) = 0"
    by (simp add: wigner_3j_sum_def py_int_halves factorial_halves u)
  have f2: "wigner_3j_formula 1 1 1 0 (1 / 2) (- 1 / 2) = 0"
    unfolding wigner_3j_formula_def s2 by simp
  have "wigner_3j 1 1 1 (1 / 2) (- 1 / 2) 0 (factorials 1) =
      (Inr (wigner_3j_formula 1 1 1 (1 / 2) (- 1 / 2) 0), factorials (max 1 (nat 3 + 2)))"
    by (rule wigner_3j_computed) simp_all
  then have a: "fst (wigner_3j 1 1 1 (1 / 2) (- 1 / 2) 0 Factlist_init) = Inr (sqrt (1 / 24))"
    by (simp only: Factlist_init_factorials f1 fst_conv)
  have "wigner_3j 1 1 1 0 (1 / 2) (- 1 / 2) (factorials 1) =
      (Inr (wigner_3j_formula 1 1 1 0 (1 / 2) (- 1 / 2)), factorials (max 1 (nat 3 + 2)))"
    by (rule wigner_3j_computed) simp_all
  then have b: "fst (wigner_3j 1 1 1 0 (1 / 2) (- 1 / 2) Factlist_init) = Inr 0"
    by (simp only: Factlist_init_factorials f2 fst_conv)
  show ?thesis
    using a b by (simp add: reachable.init)
qed

theorem wigner_3j_cyclic_permutation_differs_witness:
  "fst (wigner_3j 1 1 1 (1 / 2) (- 1 / 2) 0 Factlist_init) \<noteq>
   fst (wigner_3j 1 1 1 0 (1 / 2) (- 1 / 2) Factlist_init)"
  using wigner_3j_cyclic_permutation_differs by simp

subsection \<open>Computations with a precision\<close>

lemma big_delta_coeff_prec_factorials:
  assumes m: "0 < m"
    and p: "aa + bb - cc = of_int p" and q: "aa + cc - bb = of_int q" and r: "bb + cc - aa = of_int r"
    and nonneg: "0 \<le> p" "0 \<le> q" "0 \<le> r"
  shows "big_delta_coeff_prec N aa bb cc prec (factorials m) =
           (Inr (sage_sqrt_prec N
                   (of_int (fact (nat p) * fact (nat q) * fact (nat r)) / of_int (fact (nat (p + q + r + 1))))
                   prec),
            factorials (max m (nat (p + q + r) + 2)))"
proof -
  have s: "aa + bb + cc + 1 = of_int (p + q + r + 1)"
    using p q r by simp
  define M where "M = max m (nat (p + q + r) + 2)"
  have mf: "max (max (max (of_int p) (of_int q)) (of_int r)) (of_int (p + q + r + 1)) = (of_int (p + q + r + 1) :: rat)"
    using nonneg by (simp add: max_def)
  have cf: "calc_factlist (of_int (p + q + r + 1)) (factorials m) =
              (Inr (factorials (Suc (nat (p + q + r + 1)))), factorials M)"
    using calc_factlist_of_int [OF m, of "p + q + r + 1"] nonneg
    by (simp add: M_def nat_add_distrib)
  have M: "p + q + r + 1 < int M"
    using nonneg by (simp add: M_def)
  have "\<forall>i\<in>set [p, q, r]. 0 \<le> i \<and> i < int M"
    using M nonneg by simp
  then have "Factlist_prod (factorials M) [p, q, r] = Inr (prod_list (map (\<lambda>i. fact (nat i)) [p, q, r]))"
    by (rule Factlist_prod_factorials)
  then have num: "Factlist_prod (factorials M) [p, q, r] = Inr (fact (nat p) * fact (nat q) * fact (nat r))"
    by (simp add: mult.assoc)
  have den: "py_index (factorials M) (p + q + r + 1) = Inr (fact (nat (p + q + r + 1)))"
    using py_index_factorials [of "p + q + r + 1" M] M nonneg by simp
  have dv: "py_div (of_int (fact (nat p) * fact (nat q) * fact (nat r))) (of_int (fact (nat (p + q + r + 1)))) =
     Inr (of_int (fact (nat p) * fact (nat q) * fact (nat r)) / of_int (fact (nat (p + q + r + 1))))"
    by (rule py_div_of_int) simp
  have chk: "\<not> (of_int p :: rat) < 0" "\<not> (of_int q :: rat) < 0" "\<not> (of_int r :: rat) < 0"
    using nonneg by simp_all
  show ?thesis
    unfolding big_delta_coeff_prec_def Let_def
    unfolding p q r s py_int_of_int mf M_def [symmetric]
    by (simp only: chk if_False not_not refl not_True_eq_False bind_c_apply cf read_c_apply num den dv
        prod.case sum.case return_c_apply)
qed

lemma big_delta_coeff_prec_Delta:
  assumes m: "0 < m"
    and int: "is_integral (aa + bb - cc)" "is_integral (aa + cc - bb)" "is_integral (bb + cc - aa)"
    and nonneg: "0 \<le> aa + bb - cc" "0 \<le> aa + cc - bb" "0 \<le> bb + cc - aa"
  shows "big_delta_coeff_prec N aa bb cc prec (factorials m) =
           (Inr (sage_sqrt_prec N (Delta_radicand aa bb cc) prec),
            factorials (max m (nat (py_int (aa + bb + cc)) + 2)))"
proof -
  obtain p q r where p: "aa + bb - cc = of_int p" and q: "aa + cc - bb = of_int q"
    and r: "bb + cc - aa = of_int r"
    using int by (metis is_integralE)
  have nn: "0 \<le> p" "0 \<le> q" "0 \<le> r"
    using nonneg unfolding p q r by simp_all
  have s: "aa + bb + cc = of_int (p + q + r)"
    using p q r by simp
  have s1: "aa + bb + cc + 1 = of_int (p + q + r + 1)"
    using p q r by simp
  have "Delta_radicand aa bb cc =
      of_int (fact (nat p) * fact (nat q) * fact (nat r)) / of_int (fact (nat (p + q + r + 1)))"
    unfolding Delta_radicand_def p q r s1 factorial_of_int by simp
  moreover have "py_int (aa + bb + cc) = p + q + r"
    unfolding s by (rule py_int_of_int)
  ultimately show ?thesis
    using big_delta_coeff_prec_factorials [OF m p q r nn, of N prec] by simp
qed

lemma big_delta_coeff_prec_result:
  assumes m: "0 < m"
  shows "\<exists>m'\<ge>m. big_delta_coeff_prec N a b c prec (factorials m) =
           (big_delta_coeff_prec_result N a b c prec, factorials m')"
proof -
  let ?int = "is_integral (a + b - c) \<and> is_integral (a + c - b) \<and> is_integral (b + c - a)"
  let ?neg = "a + b - c < 0 \<or> a + c - b < 0 \<or> b + c - a < 0"
  consider (bad) "\<not> ?int" | (zero) "?int" "?neg" | (ok) "?int" "\<not> ?neg"
    by blast
  then show ?thesis
  proof cases
    case bad
    then have "big_delta_coeff_prec N a b c prec (factorials m) = (Inl ValueError_triangle, factorials m)"
      by (auto simp add: big_delta_coeff_prec_def is_integral_py_int raise_c_apply)
    then show ?thesis
      using bad by (auto simp add: big_delta_coeff_prec_result_def)
  next
    case zero
    then have "big_delta_coeff_prec N a b c prec (factorials m) = (Inr (Exact 0), factorials m)"
      by (auto simp add: big_delta_coeff_prec_def is_integral_py_int return_c_apply)
    then show ?thesis
      using zero by (auto simp add: big_delta_coeff_prec_result_def)
  next
    case ok
    then have nonneg: "0 \<le> a + b - c" "0 \<le> a + c - b" "0 \<le> b + c - a"
      by auto
    have "big_delta_coeff_prec N a b c prec (factorials m) =
        (Inr (sage_sqrt_prec N (Delta_radicand a b c) prec),
         factorials (max m (nat (py_int (a + b + c)) + 2)))"
      using ok(1) nonneg by (intro big_delta_coeff_prec_Delta [OF m]) simp_all
    moreover have "big_delta_coeff_prec_result N a b c prec =
        Inr (sage_sqrt_prec N (Delta_radicand a b c) prec)"
      using ok by (simp add: big_delta_coeff_prec_result_def)
    ultimately show ?thesis
      by (metis max.cobounded1)
  qed
qed

lemma big_delta_coeff_prec_returns:
  assumes "0 < m" "big_delta_coeff_prec N a b c prec (factorials m) = (Inr d, fl')"
  shows "big_delta_coeff_prec_result N a b c prec = Inr d \<and> (\<exists>m'\<ge>m. fl' = factorials m')"
  using big_delta_coeff_prec_result [OF assms(1), of N a b c prec] assms(2) by auto

lemma num_is_zero_Exact: "num_is_zero N (Exact a) \<longleftrightarrow> a = 0"
  by (simp add: num_is_zero_def)

lemma num_mul_Exact: "num_mul N (Exact a) (Exact b) = Exact (a * b)"
  by (simp add: num_mul_def)

lemma num_add_Exact: "num_add N (Exact a) (Exact b) = Exact (a + b)"
  by (simp add: num_add_def)

lemma big_delta_coeff_prec_result_nonzero:
  assumes "big_delta_coeff_prec_result N a b c prec = Inr d" "\<not> num_is_zero N d"
  shows "is_integral (a + b - c)" "is_integral (a + c - b)" "is_integral (b + c - a)"
    "0 \<le> a + b - c" "0 \<le> a + c - b" "0 \<le> b + c - a"
    "d = sage_sqrt_prec N (Delta_radicand a b c) prec"
  using assms by (auto simp add: big_delta_coeff_prec_result_def num_is_zero_Exact split: if_splits)

lemma big_delta_coeff_prec_result_None:
  assumes "big_delta_coeff_prec_result N a b c None = Inr d"
  shows "\<exists>r. d = Exact r"
  using assms by (auto simp add: big_delta_coeff_prec_result_def sage_sqrt_prec_def split: if_splits)

lemma prefac_nonzero:
  assumes H: "prec = None \<or> zero_absorbing N"
    and r: "big_delta_coeff_prec_result N a1 b1 c1 prec = Inr d1"
      "big_delta_coeff_prec_result N a2 b2 c2 prec = Inr d2"
      "big_delta_coeff_prec_result N a3 b3 c3 prec = Inr d3"
      "big_delta_coeff_prec_result N a4 b4 c4 prec = Inr d4"
    and nz: "\<not> num_is_zero N (num_mul N (num_mul N (num_mul N d1 d2) d3) d4)"
  shows "\<not> num_is_zero N d1" "\<not> num_is_zero N d2" "\<not> num_is_zero N d3" "\<not> num_is_zero N d4"
proof -
  have "\<not> num_is_zero N d1 \<and> \<not> num_is_zero N d2 \<and> \<not> num_is_zero N d3 \<and> \<not> num_is_zero N d4"
  proof (cases "zero_absorbing N")
    case True
    then have a: "num_is_zero N x \<or> num_is_zero N y \<Longrightarrow> num_is_zero N (num_mul N x y)" for x y
      unfolding zero_absorbing_def by blast
    have 3: "\<not> num_is_zero N (num_mul N (num_mul N d1 d2) d3)" "\<not> num_is_zero N d4"
      using nz a by blast+
    have 2: "\<not> num_is_zero N (num_mul N d1 d2)" "\<not> num_is_zero N d3"
      using 3(1) a by blast+
    have 1: "\<not> num_is_zero N d1" "\<not> num_is_zero N d2"
      using 2(1) a by blast+
    show ?thesis
      using 1 2(2) 3(2) by simp
  next
    case False
    then have "prec = None"
      using H by simp
    then obtain r1 r2 r3 r4 where "d1 = Exact r1" "d2 = Exact r2" "d3 = Exact r3" "d4 = Exact r4"
      using r big_delta_coeff_prec_result_None by metis
    then show ?thesis
      using nz by (simp add: num_mul_Exact num_is_zero_Exact)
  qed
  then show "\<not> num_is_zero N d1" "\<not> num_is_zero N d2" "\<not> num_is_zero N d3" "\<not> num_is_zero N d4"
    by simp_all
qed

lemma py_neg1_pow_nonneg: "0 \<le> n \<Longrightarrow> py_neg1_pow N n = Exact ((- 1) powi n)"
  by (simp add: py_neg1_pow_def neg1_pow_powi)

lemma racah_on_factorials:
  assumes "0 < m" and H: "prec = None \<or> zero_absorbing N"
  shows "\<exists>m'\<ge>m. racah N aa bb cc dd ee ff prec (factorials m) =
           (racah_prec_result N aa bb cc dd ee ff prec, factorials m')"
proof -
  obtain m1 where m1: "m \<le> m1"
    "big_delta_coeff_prec N aa bb ee prec (factorials m) =
       (big_delta_coeff_prec_result N aa bb ee prec, factorials m1)"
    using big_delta_coeff_prec_result [OF assms(1)] by blast
  have p1: "0 < m1"
    using assms(1) m1(1) by simp
  obtain m2 where m2: "m1 \<le> m2"
    "big_delta_coeff_prec N cc dd ee prec (factorials m1) =
       (big_delta_coeff_prec_result N cc dd ee prec, factorials m2)"
    using big_delta_coeff_prec_result [OF p1] by blast
  have p2: "0 < m2"
    using p1 m2(1) by simp
  obtain m3 where m3: "m2 \<le> m3"
    "big_delta_coeff_prec N aa cc ff prec (factorials m2) =
       (big_delta_coeff_prec_result N aa cc ff prec, factorials m3)"
    using big_delta_coeff_prec_result [OF p2] by blast
  have p3: "0 < m3"
    using p2 m3(1) by simp
  obtain m4 where m4: "m3 \<le> m4"
    "big_delta_coeff_prec N bb dd ff prec (factorials m3) =
       (big_delta_coeff_prec_result N bb dd ff prec, factorials m4)"
    using big_delta_coeff_prec_result [OF p3] by blast
  have p4: "0 < m4"
    using p3 m4(1) by simp
  have le: "m \<le> m1" "m \<le> m2" "m \<le> m3" "m \<le> m4"
    using m1(1) m2(1) m3(1) m4(1) by simp_all
  show ?thesis
  proof (cases "big_delta_coeff_prec_result N aa bb ee prec")
    case (Inl e)
    then have "racah N aa bb cc dd ee ff prec (factorials m) = (Inl e, factorials m1)"
      by (simp add: racah_def bind_c_apply m1(2))
    moreover have "racah_prec_result N aa bb cc dd ee ff prec = Inl e"
      by (simp add: racah_prec_result_def Inl bind_e_Inl)
    ultimately show ?thesis
      using le(1) by auto
  next
    case d1: (Inr d1)
    show ?thesis
    proof (cases "big_delta_coeff_prec_result N cc dd ee prec")
      case (Inl e)
      then have "racah N aa bb cc dd ee ff prec (factorials m) = (Inl e, factorials m2)"
        by (simp add: racah_def bind_c_apply m1(2) m2(2) d1)
      moreover have "racah_prec_result N aa bb cc dd ee ff prec = Inl e"
        by (simp add: racah_prec_result_def Inl d1 bind_e_Inl bind_e_Inr)
      ultimately show ?thesis
        using le(2) by auto
    next
      case d2: (Inr d2)
      show ?thesis
      proof (cases "big_delta_coeff_prec_result N aa cc ff prec")
        case (Inl e)
        then have "racah N aa bb cc dd ee ff prec (factorials m) = (Inl e, factorials m3)"
          by (simp add: racah_def bind_c_apply m1(2) m2(2) m3(2) d1 d2)
        moreover have "racah_prec_result N aa bb cc dd ee ff prec = Inl e"
          by (simp add: racah_prec_result_def Inl d1 d2 bind_e_Inl bind_e_Inr)
        ultimately show ?thesis
          using le(3) by auto
      next
        case d3: (Inr d3)
        show ?thesis
        proof (cases "big_delta_coeff_prec_result N bb dd ff prec")
          case (Inl e)
          then have "racah N aa bb cc dd ee ff prec (factorials m) = (Inl e, factorials m4)"
            by (simp add: racah_def bind_c_apply m1(2) m2(2) m3(2) m4(2) d1 d2 d3)
          moreover have "racah_prec_result N aa bb cc dd ee ff prec = Inl e"
            by (simp add: racah_prec_result_def Inl d1 d2 d3 bind_e_Inl bind_e_Inr)
          ultimately show ?thesis
            using le(4) by auto
        next
          case d4: (Inr d4)
          show ?thesis
          proof (cases "num_is_zero N (num_mul N (num_mul N (num_mul N d1 d2) d3) d4)")
            case True
            then have "racah N aa bb cc dd ee ff prec (factorials m) = (Inr (Exact 0), factorials m4)"
              by (simp only: racah_def bind_c_apply m1(2) m2(2) m3(2) m4(2) d1 d2 d3 d4
                  prod.case sum.case Let_def if_True return_c_apply simp_thms)
            moreover have "racah_prec_result N aa bb cc dd ee ff prec = Inr (Exact 0)"
              using True by (simp only: racah_prec_result_def d1 d2 d3 d4 bind_e_Inr if_True simp_thms)
            ultimately show ?thesis
              using le(4) by auto
          next
            case False
            note nz = prefac_nonzero [OF H d1 d2 d3 d4 False]
            note t1 = big_delta_coeff_prec_result_nonzero(1-6) [OF d1 nz(1)]
            note t2 = big_delta_coeff_prec_result_nonzero(1-6) [OF d2 nz(2)]
            note t3 = big_delta_coeff_prec_result_nonzero(1-6) [OF d3 nz(3)]
            note t4 = big_delta_coeff_prec_result_nonzero(1-6) [OF d4 nz(4)]
            obtain M l where M: "m4 \<le> M"
              and cf: "calc_factlist (max (max (max (of_int (py_int (min (min (aa + bb + cc + dd) (aa + dd + ee + ff)) (bb + cc + ee + ff))) + 1) (aa + bb + cc + dd)) (aa + dd + ee + ff))
                       (bb + cc + ee + ff)) (factorials m4) = (Inr l, factorials M)"
              and loop: "sum_loop (racah_term aa bb cc dd ee ff (factorials M))
                   [py_int (max (max (max (aa + bb + ee) (cc + dd + ee)) (aa + cc + ff)) (bb + dd + ff)) ..
                    py_int (min (min (aa + bb + cc + dd) (aa + dd + ee + ff)) (bb + cc + ee + ff))] 0 =
                 Inr (racah_sum aa bb cc dd ee ff)"
              using racah_loop [OF p4 t1 t2 t3 t4] by blast
            have "0 \<le> aa" "0 \<le> bb" "0 \<le> cc" "0 \<le> dd"
              using t1(4-6) t2(4-6) by linarith+
            then have "- 1 < aa + bb + cc + dd"
              by linarith
            then have "0 \<le> py_int (aa + bb + cc + dd)"
              by (rule py_int_ge_0)
            then have sg: "py_neg1_pow N (py_int (aa + bb + cc + dd)) =
                Exact ((- 1) powi py_int (aa + bb + cc + dd))"
              by (rule py_neg1_pow_nonneg)
            have "racah N aa bb cc dd ee ff prec (factorials m) =
                (Inr (num_mul N
                       (num_mul N (num_mul N (num_mul N (num_mul N d1 d2) d3) d4)
                          (Exact (of_rat (racah_sum aa bb cc dd ee ff))))
                       (Exact ((- 1) powi py_int (aa + bb + cc + dd)))), factorials M)"
              using False
              by (simp only: racah_def bind_c_apply m1(2) m2(2) m3(2) m4(2) d1 d2 d3 d4
                  prod.case sum.case Let_def if_False cf loop read_c_apply return_c_apply sg)
            moreover have "racah_prec_result N aa bb cc dd ee ff prec =
                Inr (num_mul N
                       (num_mul N (num_mul N (num_mul N (num_mul N d1 d2) d3) d4)
                          (Exact (of_rat (racah_sum aa bb cc dd ee ff))))
                       (Exact ((- 1) powi py_int (aa + bb + cc + dd))))"
              using False by (simp only: racah_prec_result_def d1 d2 d3 d4 bind_e_Inr if_False)
            moreover have "m \<le> M"
              using le(4) M by simp
            ultimately show ?thesis
              by auto
          qed
        qed
      qed
    qed
  qed
qed

lemma racah_short_circuit:
  assumes "big_delta_coeff_prec N aa bb ee prec fl = (Inr d1, fl1)"
    and "big_delta_coeff_prec N cc dd ee prec fl1 = (Inr d2, fl2)"
    and "big_delta_coeff_prec N aa cc ff prec fl2 = (Inr d3, fl3)"
    and "big_delta_coeff_prec N bb dd ff prec fl3 = (Inr d4, fl4)"
    and "num_is_zero N (num_mul N (num_mul N (num_mul N d1 d2) d3) d4)"
  shows "racah N aa bb cc dd ee ff prec fl = (Inr (Exact 0), fl4)"
  by (simp only: racah_def bind_c_apply assms prod.case sum.case Let_def if_True return_c_apply
      simp_thms)

lemma fst_racah_factorials:
  assumes "0 < m" "prec = None \<or> zero_absorbing N"
  shows "fst (racah N aa bb cc dd ee ff prec (factorials m)) = racah_prec_result N aa bb cc dd ee ff prec"
  using racah_on_factorials [OF assms, of aa bb cc dd ee ff] by auto

lemma big_delta_coeff_prec_None:
  "big_delta_coeff_prec N aa bb cc None fl =
     (case big_delta_coeff aa bb cc fl of
        (Inl e, fl') \<Rightarrow> (Inl e, fl')
      | (Inr d, fl') \<Rightarrow> (Inr (Exact d), fl'))"
  by (simp add: big_delta_coeff_prec_def big_delta_coeff_def Let_def bind_c_def read_c_def
      return_c_def raise_c_def sage_sqrt_prec_def split: prod.splits sum.splits)

lemma wigner_3j_prec_None:
  "wigner_3j_prec N j_1 j_2 j_3 m_1 m_2 m_3 None fl =
     (case wigner_3j j_1 j_2 j_3 m_1 m_2 m_3 fl of
        (Inl e, fl') \<Rightarrow> (Inl e, fl')
      | (Inr w, fl') \<Rightarrow> (Inr (Exact w), fl'))"
  by (simp add: wigner_3j_prec_def wigner_3j_def Let_def bind_c_def read_c_def
      return_c_def raise_c_def sage_sqrt_prec_def num_mul_Exact split: prod.splits sum.splits)

subsection \<open>\<open>racah\<close>\<close>

lemma num_is_zero_unrounded: "num_is_zero unrounded x \<longleftrightarrow> num_value x = 0"
  by (cases x) (simp_all add: num_is_zero_def unrounded_def num_value_def)

lemma num_value_mul_unrounded: "num_value (num_mul unrounded x y) = num_value x * num_value y"
  by (cases x; cases y) (simp_all add: num_mul_def unrounded_def num_value_def)

lemma zero_absorbing_unrounded: "zero_absorbing unrounded"
  by (simp add: zero_absorbing_def num_is_zero_unrounded num_value_mul_unrounded)

text \<open>
  C3. \<open>racah(aa, bb, cc, dd, ee, ff, prec)\<close> passes \<open>prec\<close> to its four calls of
  \<open>_big_delta_coeff\<close>; when they return \<open>d1\<close>, \<open>d2\<close>, \<open>d3\<close>, \<open>d4\<close>, the prefactor is their
  product. If it is 0, \<open>racah\<close> returns 0 at once, the cache being what the fourth call left
  (no summation has touched it). Otherwise \<open>racah\<close> returns the prefactor times the sum over
  \<open>k\<close> times \<open>(-1)^(aa+bb+cc+dd)\<close>, whose exponent is then a natural number. With a precision
  the products are those of the inexact arithmetic, of which the proof uses that a
  product with a zero factor is zero.
\<close>

theorem racah_prefactor_sum:
  assumes "reachable fl"
    and H: "prec = None \<or> zero_absorbing N"
    and c1: "big_delta_coeff_prec N aa bb ee prec fl = (Inr d1, fl1)"
    and c2: "big_delta_coeff_prec N cc dd ee prec fl1 = (Inr d2, fl2)"
    and c3: "big_delta_coeff_prec N aa cc ff prec fl2 = (Inr d3, fl3)"
    and c4: "big_delta_coeff_prec N bb dd ff prec fl3 = (Inr d4, fl4)"
  shows "(num_is_zero N (num_mul N (num_mul N (num_mul N d1 d2) d3) d4) \<longrightarrow>
            racah N aa bb cc dd ee ff prec fl = (Inr (Exact 0), fl4)) \<and>
         (\<not> num_is_zero N (num_mul N (num_mul N (num_mul N d1 d2) d3) d4) \<longrightarrow>
            fst (racah N aa bb cc dd ee ff prec fl) =
              Inr (num_mul N
                     (num_mul N (num_mul N (num_mul N (num_mul N d1 d2) d3) d4)
                        (Exact (of_rat (racah_sum aa bb cc dd ee ff))))
                     (Exact ((- 1) powi py_int (aa + bb + cc + dd)))))"
proof -
  let ?P = "num_mul N (num_mul N (num_mul N d1 d2) d3) d4"
  obtain m where m: "0 < m" "fl = factorials m"
    using reachable_factorials [OF assms(1)] by blast
  obtain m1 where r1: "big_delta_coeff_prec_result N aa bb ee prec = Inr d1"
    and m1: "m \<le> m1" "fl1 = factorials m1"
    using big_delta_coeff_prec_returns [OF m(1) c1 [unfolded m(2)]] by blast
  have p1: "0 < m1" using m(1) m1(1) by simp
  obtain m2 where r2: "big_delta_coeff_prec_result N cc dd ee prec = Inr d2"
    and m2: "m1 \<le> m2" "fl2 = factorials m2"
    using big_delta_coeff_prec_returns [OF p1 c2 [unfolded m1(2)]] by blast
  have p2: "0 < m2" using p1 m2(1) by simp
  obtain m3 where r3: "big_delta_coeff_prec_result N aa cc ff prec = Inr d3"
    and m3: "m2 \<le> m3" "fl3 = factorials m3"
    using big_delta_coeff_prec_returns [OF p2 c3 [unfolded m2(2)]] by blast
  have p3: "0 < m3" using p2 m3(1) by simp
  obtain m4 where r4: "big_delta_coeff_prec_result N bb dd ff prec = Inr d4"
    and m4: "m3 \<le> m4" "fl4 = factorials m4"
    using big_delta_coeff_prec_returns [OF p3 c4 [unfolded m3(2)]] by blast
  have zero: "racah N aa bb cc dd ee ff prec fl = (Inr (Exact 0), fl4)" if "num_is_zero N ?P"
    using c1 c2 c3 c4 that by (rule racah_short_circuit)
  have "fst (racah N aa bb cc dd ee ff prec fl) = racah_prec_result N aa bb cc dd ee ff prec"
    unfolding m(2) by (rule fst_racah_factorials [OF m(1) H])
  moreover have "racah_prec_result N aa bb cc dd ee ff prec =
      Inr (num_mul N (num_mul N ?P (Exact (of_rat (racah_sum aa bb cc dd ee ff))))
             (Exact ((- 1) powi py_int (aa + bb + cc + dd))))"
    if "\<not> num_is_zero N ?P"
    using that by (simp only: racah_prec_result_def r1 r2 r3 r4 bind_e_Inr if_False simp_thms)
  ultimately show ?thesis
    using zero by simp
qed

lemma Delta_radicand_values:
  "Delta_radicand 3 3 3 = 1 / 16800" "Delta_radicand 1 1 1 = 1 / 24"
  "Delta_radicand 5 5 5 = 1 / 12108096"
  by (simp_all add: Delta_radicand_def fact_numeral)

lemma sqrt_of_rat_values:
  "sage_sqrt (1 / 16800) = sqrt (1 / 16800)" "sage_sqrt (1 / 24) = sqrt (1 / 24)"
  "sage_sqrt (1 / 12108096) = sqrt (1 / 12108096)"
  by (simp_all add: sage_sqrt_def of_rat_divide)

lemma sqrt_fourth_power: "0 \<le> x \<Longrightarrow> sqrt x * sqrt x * sqrt x * sqrt x = x * x"
proof -
  assume x: "0 \<le> x"
  have "sqrt x * sqrt x * sqrt x * sqrt x = (sqrt x * sqrt x) * (sqrt x * sqrt x)"
    by (simp only: mult.assoc)
  also have "\<dots> = x * x"
    using x by simp
  finally show ?thesis .
qed

theorem racah_prefactor_sum_witness:
  "reachable Factlist_init \<and>
   (\<forall>N. fst (racah N 3 3 3 3 3 3 None Factlist_init) = Inr (Exact (- 1 / 14))) \<and>
   (\<forall>N. racah N 1 1 3 1 1 1 None Factlist_init = (Inr (Exact 0), factorials 5)) \<and>
   zero_absorbing unrounded \<and>
   fst (racah unrounded 3 3 3 3 3 3 (Some 53) Factlist_init) = Inr (Inexact (- 1 / 14))"
proof -
  have a: "big_delta_coeff_prec N 3 3 3 prec (factorials m) =
      (Inr (sage_sqrt_prec N (1 / 16800) prec), factorials (max m 11))" if "0 < m" for m N prec
    using big_delta_coeff_prec_Delta [OF that, of 3 3 3 N prec] by (simp add: Delta_radicand_values)
  have s: "racah_sum 3 3 3 3 3 3 = - 20160000"
    by (simp add: racah_sum_def fact_numeral)
  have p: "sqrt (1 / 16800) * sqrt (1 / 16800) * sqrt (1 / 16800) * sqrt (1 / 16800) =
          1 / 16800 * (1 / 16800 :: real)"
    by (rule sqrt_fourth_power) simp
  have v: "fst (racah N 3 3 3 3 3 3 None Factlist_init) = Inr (Exact (- 1 / 14))" for N
  proof -
    have c1: "big_delta_coeff_prec N 3 3 3 None Factlist_init =
        (Inr (Exact (sqrt (1 / 16800))), factorials 11)"
      using a [of 1 N None] by (simp add: Factlist_init_factorials sage_sqrt_prec_def sqrt_of_rat_values)
    have c2: "big_delta_coeff_prec N 3 3 3 None (factorials 11) =
        (Inr (Exact (sqrt (1 / 16800))), factorials 11)"
      using a [of 11 N None] by (simp add: sage_sqrt_prec_def sqrt_of_rat_values)
    show ?thesis
      using racah_prefactor_sum [OF reachable.init _ c1 c2 c2 c2]
      unfolding num_mul_Exact num_is_zero_Exact p s by simp
  qed
  have z: "racah N 1 1 3 1 1 1 None Factlist_init = (Inr (Exact 0), factorials 5)" for N
  proof -
    have z1: "big_delta_coeff_prec N 1 1 1 None Factlist_init =
        (Inr (Exact (sqrt (1 / 24))), factorials 5)"
      using big_delta_coeff_prec_Delta [of 1 1 1 1 N None]
      by (simp add: Delta_radicand_values Factlist_init_factorials sage_sqrt_prec_def sqrt_of_rat_values)
    have z2: "big_delta_coeff_prec N 3 1 1 None (factorials 5) = (Inr (Exact 0), factorials 5)"
      by (simp add: big_delta_coeff_prec_def return_c_apply)
    have z3: "big_delta_coeff_prec N 1 3 1 None (factorials 5) = (Inr (Exact 0), factorials 5)"
      by (simp add: big_delta_coeff_prec_def return_c_apply)
    have z4: "big_delta_coeff_prec N 1 1 1 None (factorials 5) =
        (Inr (Exact (sqrt (1 / 24))), factorials 5)"
      using big_delta_coeff_prec_Delta [of 5 1 1 1 N None]
      by (simp add: Delta_radicand_values sage_sqrt_prec_def sqrt_of_rat_values)
    show ?thesis
      using racah_prefactor_sum [OF reachable.init _ z1 z2 z3 z4]
      unfolding num_mul_Exact num_is_zero_Exact by simp
  qed
  have u: "fst (racah unrounded 3 3 3 3 3 3 (Some 53) Factlist_init) = Inr (Inexact (- 1 / 14))"
  proof -
    have q: "sage_sqrt_prec unrounded (1 / 16800) (Some 53) = Inexact (sqrt (1 / 16800))"
      by (simp add: sage_sqrt_prec_def unrounded_def of_rat_divide)
    have c1: "big_delta_coeff_prec unrounded 3 3 3 (Some 53) Factlist_init =
        (Inr (Inexact (sqrt (1 / 16800))), factorials 11)"
      using a [of 1 unrounded "Some 53"] by (simp add: Factlist_init_factorials q)
    have c2: "big_delta_coeff_prec unrounded 3 3 3 (Some 53) (factorials 11) =
        (Inr (Inexact (sqrt (1 / 16800))), factorials 11)"
      using a [of 11 unrounded "Some 53"] by (simp add: q)
    have P: "num_mul unrounded (num_mul unrounded (num_mul unrounded (Inexact (sqrt (1 / 16800)))
        (Inexact (sqrt (1 / 16800)))) (Inexact (sqrt (1 / 16800)))) (Inexact (sqrt (1 / 16800))) =
        Inexact (1 / 16800 * (1 / 16800))"
      unfolding p [symmetric] by (simp add: num_mul_def unrounded_def num_value_def)
    have "fst (racah unrounded 3 3 3 3 3 3 (Some 53) Factlist_init) =
        Inr (num_mul unrounded (num_mul unrounded (Inexact (1 / 16800 * (1 / 16800)))
               (Exact (of_rat (racah_sum 3 3 3 3 3 3)))) (Exact ((- 1) powi py_int (3 + 3 + 3 + 3))))"
      using racah_prefactor_sum [OF reachable.init _ c1 c2 c2 c2] zero_absorbing_unrounded
      unfolding P by (simp add: num_is_zero_unrounded num_value_def)
    then show ?thesis
      unfolding s by (simp add: num_mul_def unrounded_def num_value_def)
  qed
  show ?thesis
    by (intro conjI allI v z u zero_absorbing_unrounded reachable.init)
qed

subsection \<open>\<open>wigner_6j\<close>\<close>

lemma of_rat_factorial: "(of_rat (factorial x) :: real) = factorial x"
  by (simp add: factorial_def of_rat_fact)

lemma sage_sqrt_Delta_radicand: "sage_sqrt (Delta_radicand a b c) = Delta a b c"
  by (simp add: sage_sqrt_def Delta_radicand_def Delta_def of_rat_divide of_rat_mult of_rat_factorial)

lemma big_delta_coeff_prec_result_None_eq:
  "big_delta_coeff_prec_result N a b c None =
     (case big_delta_coeff_result a b c of Inl e \<Rightarrow> Inl e | Inr d \<Rightarrow> Inr (Exact d))"
  by (simp add: big_delta_coeff_prec_result_def big_delta_coeff_result_def sage_sqrt_prec_def
      sage_sqrt_Delta_radicand)

lemma racah_prec_result_None:
  "racah_prec_result N a b c d e f None =
     (case racah_result a b c d e f of Inl e \<Rightarrow> Inl e | Inr r \<Rightarrow> Inr (Exact r))"
  by (simp add: racah_prec_result_def racah_result_def big_delta_coeff_prec_result_None_eq
      bind_e_def num_mul_Exact num_is_zero_Exact split: sum.splits)

lemma racah_prec_result_nonzero:
  assumes H: "prec = None \<or> zero_absorbing N"
    and r: "racah_prec_result N a b c d e f prec = Inr r" and nz: "\<not> num_is_zero N r"
  shows "is_integral (a + b + c + d)" "0 \<le> a + b + c + d"
proof -
  obtain d1 d2 d3 d4 where d: "big_delta_coeff_prec_result N a b e prec = Inr d1"
    "big_delta_coeff_prec_result N c d e prec = Inr d2"
    "big_delta_coeff_prec_result N a c f prec = Inr d3"
    "big_delta_coeff_prec_result N b d f prec = Inr d4"
    using r by (auto simp add: racah_prec_result_def bind_e_def split: sum.splits)
  have P: "\<not> num_is_zero N (num_mul N (num_mul N (num_mul N d1 d2) d3) d4)"
  proof
    assume "num_is_zero N (num_mul N (num_mul N (num_mul N d1 d2) d3) d4)"
    then have "racah_prec_result N a b c d e f prec = Inr (Exact 0)"
      by (simp only: racah_prec_result_def d bind_e_Inr if_True)
    then show False
      using r nz by (simp add: num_is_zero_Exact)
  qed
  note n = prefac_nonzero [OF H d P]
  note t1 = big_delta_coeff_prec_result_nonzero(1-6) [OF d(1) n(1)]
  note t2 = big_delta_coeff_prec_result_nonzero(1-6) [OF d(2) n(2)]
  have "is_integral ((a + b - e) + (c + d - e) + ((a + e - b) + (b + e - a)))"
    by (intro is_integral_add t1(1-3) t2(1))
  moreover have "(a + b - e) + (c + d - e) + ((a + e - b) + (b + e - a)) = a + b + c + d"
    by simp
  ultimately show "is_integral (a + b + c + d)"
    by (simp only:)
  have "0 \<le> a" "0 \<le> b" "0 \<le> c" "0 \<le> d"
    using t1(4-6) t2(4-6) by linarith+
  then show "0 \<le> a + b + c + d"
    by linarith
qed

lemma py_int_nonneg: "0 \<le> x \<Longrightarrow> 0 \<le> py_int x"
  by (rule py_int_ge_0) simp

text \<open>
  C6. \<open>wigner_6j(j_1, ..., j_6, prec)\<close> calls \<open>racah(j_1, j_2, j_5, j_4, j_3, j_6, prec)\<close>,
  raises what that call raises and multiplies what it returns by \<open>(-1) ** int(j_1+j_2+j_4+j_5)\<close>.
  When \<open>j_1+j_2+j_4+j_5\<close> is not negative the phase is the integer \<open>(-1)^(j_1+j_2+j_4+j_5)\<close>, and so
  it is whenever the Racah coefficient returned is not zero (then \<open>j_1+j_2+j_4+j_5\<close> is a natural
  number); a zero Racah coefficient gives a zero 6-j symbol.
\<close>

theorem wigner_6j_racah:
  "(\<forall>e fl'. racah N j_1 j_2 j_5 j_4 j_3 j_6 prec fl = (Inl e, fl') \<longrightarrow>
      wigner_6j N j_1 j_2 j_3 j_4 j_5 j_6 prec fl = (Inl e, fl')) \<and>
   (\<forall>r fl'. racah N j_1 j_2 j_5 j_4 j_3 j_6 prec fl = (Inr r, fl') \<longrightarrow>
      wigner_6j N j_1 j_2 j_3 j_4 j_5 j_6 prec fl =
        (Inr (num_mul N (py_neg1_pow N (py_int (j_1 + j_2 + j_4 + j_5))) r), fl')) \<and>
   (0 \<le> j_1 + j_2 + j_4 + j_5 \<longrightarrow>
      py_neg1_pow N (py_int (j_1 + j_2 + j_4 + j_5)) = Exact ((- 1) powi py_int (j_1 + j_2 + j_4 + j_5))) \<and>
   (\<forall>r fl'. reachable fl \<and> (prec = None \<or> zero_absorbing N) \<and>
      racah N j_1 j_2 j_5 j_4 j_3 j_6 prec fl = (Inr r, fl') \<and> \<not> num_is_zero N r \<longrightarrow>
      is_integral (j_1 + j_2 + j_4 + j_5) \<and> 0 \<le> j_1 + j_2 + j_4 + j_5 \<and>
      wigner_6j N j_1 j_2 j_3 j_4 j_5 j_6 prec fl =
        (Inr (num_mul N (Exact ((- 1) powi py_int (j_1 + j_2 + j_4 + j_5))) r), fl')) \<and>
   (\<forall>fl'. 0 \<le> j_1 + j_2 + j_4 + j_5 \<and>
      racah N j_1 j_2 j_5 j_4 j_3 j_6 prec fl = (Inr (Exact 0), fl') \<longrightarrow>
      wigner_6j N j_1 j_2 j_3 j_4 j_5 j_6 prec fl = (Inr (Exact 0), fl')) \<and>
   (\<forall>r fl'. zero_absorbing N \<and> num_is_zero N r \<and>
      racah N j_1 j_2 j_5 j_4 j_3 j_6 prec fl = (Inr r, fl') \<longrightarrow>
      (\<exists>r'. wigner_6j N j_1 j_2 j_3 j_4 j_5 j_6 prec fl = (Inr r', fl') \<and> num_is_zero N r'))"
proof -
  let ?e = "py_int (j_1 + j_2 + j_4 + j_5)"
  have 1: "wigner_6j N j_1 j_2 j_3 j_4 j_5 j_6 prec fl = (Inl e, fl')"
    if "racah N j_1 j_2 j_5 j_4 j_3 j_6 prec fl = (Inl e, fl')" for e fl'
    using that by (simp add: wigner_6j_def bind_c_apply)
  have 2: "wigner_6j N j_1 j_2 j_3 j_4 j_5 j_6 prec fl = (Inr (num_mul N (py_neg1_pow N ?e) r), fl')"
    if "racah N j_1 j_2 j_5 j_4 j_3 j_6 prec fl = (Inr r, fl')" for r fl'
    using that by (simp add: wigner_6j_def bind_c_apply return_c_apply)
  have 3: "py_neg1_pow N ?e = Exact ((- 1) powi ?e)" if "0 \<le> j_1 + j_2 + j_4 + j_5"
    using that by (intro py_neg1_pow_nonneg py_int_nonneg)
  have 4: "is_integral (j_1 + j_2 + j_4 + j_5) \<and> 0 \<le> j_1 + j_2 + j_4 + j_5 \<and>
      wigner_6j N j_1 j_2 j_3 j_4 j_5 j_6 prec fl = (Inr (num_mul N (Exact ((- 1) powi ?e)) r), fl')"
    if rf: "reachable fl" and H: "prec = None \<or> zero_absorbing N"
      and r: "racah N j_1 j_2 j_5 j_4 j_3 j_6 prec fl = (Inr r, fl')" and nz: "\<not> num_is_zero N r"
    for r fl'
  proof -
    obtain m where m: "0 < m" "fl = factorials m"
      using reachable_factorials [OF rf] by blast
    have "racah_prec_result N j_1 j_2 j_5 j_4 j_3 j_6 prec = Inr r"
      using fst_racah_factorials [OF m(1) H, of j_1 j_2 j_5 j_4 j_3 j_6] r by (simp add: m(2))
    note i = racah_prec_result_nonzero [OF H this nz]
    have s: "j_1 + j_2 + j_5 + j_4 = j_1 + j_2 + j_4 + j_5"
      by simp
    show ?thesis
      using i 2 [OF r] 3 unfolding s by simp
  qed
  have 5: "wigner_6j N j_1 j_2 j_3 j_4 j_5 j_6 prec fl = (Inr (Exact 0), fl')"
    if "0 \<le> j_1 + j_2 + j_4 + j_5" "racah N j_1 j_2 j_5 j_4 j_3 j_6 prec fl = (Inr (Exact 0), fl')"
    for fl'
    using 2 [OF that(2)] 3 [OF that(1)] by (simp add: num_mul_Exact)
  have 6: "\<exists>r'. wigner_6j N j_1 j_2 j_3 j_4 j_5 j_6 prec fl = (Inr r', fl') \<and> num_is_zero N r'"
    if "zero_absorbing N" "num_is_zero N r" "racah N j_1 j_2 j_5 j_4 j_3 j_6 prec fl = (Inr r, fl')"
    for r fl'
  proof -
    have "num_is_zero N (num_mul N (py_neg1_pow N ?e) r)"
      using that(1,2) unfolding zero_absorbing_def by blast
    then show ?thesis
      using 2 [OF that(3)] by blast
  qed
  show ?thesis
    using 1 2 3 4 5 6 by blast
qed

theorem wigner_6j_racah_witness:
  "(\<forall>N. fst (wigner_6j N 3 3 3 3 3 3 None Factlist_init) = Inr (Exact (- 1 / 14))) \<and>
   (\<forall>N. fst (wigner_6j N 5 5 5 5 5 5 None Factlist_init) = Inr (Exact (1 / 52)))"
proof -
  have a: "fst (wigner_6j N 3 3 3 3 3 3 None Factlist_init) = Inr (Exact (- 1 / 14))" for N
  proof -
    obtain m3 where r3: "racah N 3 3 3 3 3 3 None Factlist_init = (Inr (Exact (- 1 / 14)), factorials m3)"
      using racah_on_factorials [of 1 None N 3 3 3 3 3 3]
      by (auto simp add: racah_prec_result_None racah_333333 Factlist_init_factorials)
    have "wigner_6j N 3 3 3 3 3 3 None Factlist_init =
          (Inr (num_mul N (py_neg1_pow N (py_int (3 + 3 + 3 + 3))) (Exact (- 1 / 14))), factorials m3)"
      using wigner_6j_racah [of N 3 3 3 3 3 3 None Factlist_init] r3 by blast
    then show ?thesis
      by (simp add: py_neg1_pow_def neg1_pow_def num_mul_Exact)
  qed
  have b: "fst (wigner_6j N 5 5 5 5 5 5 None Factlist_init) = Inr (Exact (1 / 52))" for N
  proof -
    obtain m5 where r5: "racah N 5 5 5 5 5 5 None Factlist_init = (Inr (Exact (1 / 52)), factorials m5)"
      using racah_on_factorials [of 1 None N 5 5 5 5 5 5]
      by (auto simp add: racah_prec_result_None racah_result_555555 Factlist_init_factorials)
    have "wigner_6j N 5 5 5 5 5 5 None Factlist_init =
          (Inr (num_mul N (py_neg1_pow N (py_int (5 + 5 + 5 + 5))) (Exact (1 / 52))), factorials m5)"
      using wigner_6j_racah [of N 5 5 5 5 5 5 None Factlist_init] r5 by blast
    then show ?thesis
      by (simp add: py_neg1_pow_def neg1_pow_def num_mul_Exact)
  qed
  show ?thesis
    by (intro conjI allI a b)
qed

subsection \<open>\<open>wigner_9j\<close>\<close>

lemma sum_loop_c_results:
  assumes "\<forall>k\<in>set ks. \<forall>m'>0. \<exists>m''\<ge>m'. term k (factorials m') = (t k, factorials m'')"
    and "0 < m"
  shows "\<exists>m''\<ge>m. sum_loop_c N term ks acc (factorials m) =
           (sum_results N t ks acc, factorials m'')"
  using assms
proof (induction ks arbitrary: acc m)
  case Nil
  show ?case
    by (auto simp add: return_c_apply)
next
  case (Cons k ks)
  obtain m1 where m1: "m \<le> m1" "term k (factorials m) = (t k, factorials m1)"
    using Cons.prems by (meson list.set_intros(1))
  have p1: "0 < m1"
    using Cons.prems(2) m1(1) by simp
  show ?case
  proof (cases "t k")
    case (Inl e)
    have "sum_loop_c N term (k # ks) acc (factorials m) = (sum_results N t (k # ks) acc, factorials m1)"
      by (simp add: bind_c_apply m1(2) Inl bind_e_Inl)
    then show ?thesis
      using m1(1) by blast
  next
    case (Inr x)
    have "\<forall>k\<in>set ks. \<forall>m'>0. \<exists>m''\<ge>m'. term k (factorials m') = (t k, factorials m'')"
      using Cons.prems(1) by simp
    then obtain m2 where m2: "m1 \<le> m2"
      "sum_loop_c N term ks (num_add N acc x) (factorials m1) =
         (sum_results N t ks (num_add N acc x), factorials m2)"
      using Cons.IH [of m1 "num_add N acc x"] p1 by blast
    have "sum_loop_c N term (k # ks) acc (factorials m) = (sum_results N t (k # ks) acc, factorials m2)"
      by (simp add: bind_c_apply m1(2) m2(2) Inr bind_e_Inr)
    moreover have "m \<le> m2"
      using m1(1) m2(1) by simp
    ultimately show ?thesis
      by blast
  qed
qed

lemma wigner_9j_term_factorials:
  assumes m: "0 < m" and H: "prec = None \<or> zero_absorbing N"
  shows "\<exists>m'\<ge>m. wigner_9j_term N j_1 j_2 j_3 j_4 j_5 j_6 j_7 j_8 j_9 prec kk (factorials m) =
           (wigner_9j_summand N kk
              (racah_prec_result N j_1 j_2 j_9 j_6 j_3 (of_int kk) prec)
              (racah_prec_result N j_4 j_6 j_8 j_2 j_5 (of_int kk) prec)
              (racah_prec_result N j_1 j_4 j_9 j_8 j_7 (of_int kk) prec), factorials m')"
proof -
  let ?R1 = "racah_prec_result N j_1 j_2 j_9 j_6 j_3 (of_int kk) prec"
  let ?R2 = "racah_prec_result N j_4 j_6 j_8 j_2 j_5 (of_int kk) prec"
  let ?R3 = "racah_prec_result N j_1 j_4 j_9 j_8 j_7 (of_int kk) prec"
  obtain m1 where m1: "m \<le> m1"
    "racah N j_1 j_2 j_9 j_6 j_3 (of_int kk) prec (factorials m) = (?R1, factorials m1)"
    using racah_on_factorials [OF m H] by blast
  have p1: "0 < m1"
    using m m1(1) by simp
  obtain m2 where m2: "m1 \<le> m2"
    "racah N j_4 j_6 j_8 j_2 j_5 (of_int kk) prec (factorials m1) = (?R2, factorials m2)"
    using racah_on_factorials [OF p1 H] by blast
  have p2: "0 < m2"
    using p1 m2(1) by simp
  obtain m3 where m3: "m2 \<le> m3"
    "racah N j_1 j_4 j_9 j_8 j_7 (of_int kk) prec (factorials m2) = (?R3, factorials m3)"
    using racah_on_factorials [OF p2 H] by blast
  have le: "m \<le> m1" "m \<le> m2" "m \<le> m3"
    using m1(1) m2(1) m3(1) by simp_all
  show ?thesis
  proof (cases ?R1)
    case (Inl e)
    then have "wigner_9j_term N j_1 j_2 j_3 j_4 j_5 j_6 j_7 j_8 j_9 prec kk (factorials m) =
        (wigner_9j_summand N kk ?R1 ?R2 ?R3, factorials m1)"
      by (simp add: wigner_9j_term_def wigner_9j_summand_def bind_c_apply m1(2) bind_e_Inl)
    then show ?thesis
      using le(1) by blast
  next
    case r1: (Inr r1)
    show ?thesis
    proof (cases ?R2)
      case (Inl e)
      then have "wigner_9j_term N j_1 j_2 j_3 j_4 j_5 j_6 j_7 j_8 j_9 prec kk (factorials m) =
          (wigner_9j_summand N kk ?R1 ?R2 ?R3, factorials m2)"
        by (simp add: wigner_9j_term_def wigner_9j_summand_def bind_c_apply m1(2) m2(2) r1
            bind_e_Inl bind_e_Inr)
      then show ?thesis
        using le(2) by blast
    next
      case r2: (Inr r2)
      show ?thesis
      proof (cases ?R3)
        case (Inl e)
        then have "wigner_9j_term N j_1 j_2 j_3 j_4 j_5 j_6 j_7 j_8 j_9 prec kk (factorials m) =
            (wigner_9j_summand N kk ?R1 ?R2 ?R3, factorials m3)"
          by (simp add: wigner_9j_term_def wigner_9j_summand_def bind_c_apply m1(2) m2(2) m3(2) r1 r2
              bind_e_Inl bind_e_Inr)
        then show ?thesis
          using le(3) by blast
      next
        case r3: (Inr r3)
        then have "wigner_9j_term N j_1 j_2 j_3 j_4 j_5 j_6 j_7 j_8 j_9 prec kk (factorials m) =
            (wigner_9j_summand N kk ?R1 ?R2 ?R3, factorials m3)"
          by (simp add: wigner_9j_term_def wigner_9j_summand_def bind_c_apply m1(2) m2(2) m3(2) r1 r2
              bind_e_Inr return_c_apply)
        then show ?thesis
          using le(3) by blast
      qed
    qed
  qed
qed

lemma sum_results_Exact:
  assumes "\<forall>k\<in>set ks. t k = Inr (Exact (f k))"
  shows "sum_results N t ks (Exact a) = Inr (Exact (a + sum_list (map f ks)))"
  using assms
  by (induction ks arbitrary: a) (simp_all add: bind_e_Inr num_add_Exact add.assoc)

lemma wigner_9j_summand_Exact:
  "wigner_9j_summand N k (Inr (Exact a)) (Inr (Exact b)) (Inr (Exact c)) =
     Inr (Exact (of_int (2 * k + 1) * a * b * c))"
  by (simp add: wigner_9j_summand_def bind_e_Inr num_mul_Exact)

text \<open>
  C5. \<open>wigner_9j(j_1, ..., j_9, prec)\<close> is the sum, over the integers \<open>k\<close> from 0 to
  \<open>int(min(j_1+j_9, j_2+j_6, j_4+j_8))\<close> in this order, of \<open>(2k+1)\<close> times
  \<open>racah(j_1, j_2, j_9, j_6, j_3, k, prec)\<close>, \<open>racah(j_4, j_6, j_8, j_2, j_5, k, prec)\<close> and
  \<open>racah(j_1, j_4, j_9, j_8, j_7, k, prec)\<close>, each taken as the call returns it on the cache
  of the call of \<open>wigner_9j\<close>; the first of these calls that raises makes \<open>wigner_9j\<close> raise
  the same error. There is no selection rule of its own: every term is added. When the
  calls return exact numbers the result is their exact sum, and a term is 0 exactly when
  one of its three Racah factors is.
\<close>

theorem wigner_9j_racah_sum:
  assumes "reachable fl" and H: "prec = None \<or> zero_absorbing N"
  shows "fst (wigner_9j N j_1 j_2 j_3 j_4 j_5 j_6 j_7 j_8 j_9 prec fl) =
           sum_results N
             (\<lambda>k. wigner_9j_summand N k
                (fst (racah N j_1 j_2 j_9 j_6 j_3 (of_int k) prec fl))
                (fst (racah N j_4 j_6 j_8 j_2 j_5 (of_int k) prec fl))
                (fst (racah N j_1 j_4 j_9 j_8 j_7 (of_int k) prec fl)))
             [0 .. py_int (min (min (j_1 + j_9) (j_2 + j_6)) (j_4 + j_8))] (Exact 0) \<and>
         ((\<forall>k\<in>set [0 .. py_int (min (min (j_1 + j_9) (j_2 + j_6)) (j_4 + j_8))].
             fst (racah N j_1 j_2 j_9 j_6 j_3 (of_int k) prec fl) = Inr (Exact (R1 k)) \<and>
             fst (racah N j_4 j_6 j_8 j_2 j_5 (of_int k) prec fl) = Inr (Exact (R2 k)) \<and>
             fst (racah N j_1 j_4 j_9 j_8 j_7 (of_int k) prec fl) = Inr (Exact (R3 k))) \<longrightarrow>
          fst (wigner_9j N j_1 j_2 j_3 j_4 j_5 j_6 j_7 j_8 j_9 prec fl) =
            Inr (Exact (\<Sum>k\<leftarrow>[0 .. py_int (min (min (j_1 + j_9) (j_2 + j_6)) (j_4 + j_8))].
                   of_int (2 * k + 1) * R1 k * R2 k * R3 k))) \<and>
         (\<forall>k. of_int (2 * k + 1) * R1 k * R2 k * R3 k = 0 \<longleftrightarrow> R1 k = 0 \<or> R2 k = 0 \<or> R3 k = 0)"
proof -
  obtain m where m: "0 < m" "fl = factorials m"
    using reachable_factorials [OF assms(1)] by blast
  let ?ks = "[0 .. py_int (min (min (j_1 + j_9) (j_2 + j_6)) (j_4 + j_8))]"
  let ?t = "\<lambda>k. wigner_9j_summand N k
                (racah_prec_result N j_1 j_2 j_9 j_6 j_3 (of_int k) prec)
                (racah_prec_result N j_4 j_6 j_8 j_2 j_5 (of_int k) prec)
                (racah_prec_result N j_1 j_4 j_9 j_8 j_7 (of_int k) prec)"
  let ?f = "\<lambda>k. of_int (2 * k + 1) * R1 k * R2 k * R3 k"
  have "\<forall>k\<in>set ?ks. \<forall>m'>0. \<exists>m''\<ge>m'.
          wigner_9j_term N j_1 j_2 j_3 j_4 j_5 j_6 j_7 j_8 j_9 prec k (factorials m') =
            (?t k, factorials m'')"
    using wigner_9j_term_factorials [OF _ H] by blast
  then obtain m' where
    "sum_loop_c N (wigner_9j_term N j_1 j_2 j_3 j_4 j_5 j_6 j_7 j_8 j_9 prec) ?ks (Exact 0) (factorials m) =
      (sum_results N ?t ?ks (Exact 0), factorials m')"
    using sum_loop_c_results [OF _ m(1), where t = ?t and acc = "Exact 0"] by blast
  then have 1: "fst (wigner_9j N j_1 j_2 j_3 j_4 j_5 j_6 j_7 j_8 j_9 prec fl) =
      sum_results N ?t ?ks (Exact 0)"
    by (simp add: wigner_9j_def m(2))
  have f: "fst (racah N a b c d e g prec fl) = racah_prec_result N a b c d e g prec" for a b c d e g
    unfolding m(2) by (rule fst_racah_factorials [OF m(1) H])
  have 2: "sum_results N ?t ?ks (Exact 0) = Inr (Exact (sum_list (map ?f ?ks)))"
    if "\<forall>k\<in>set ?ks.
          racah_prec_result N j_1 j_2 j_9 j_6 j_3 (of_int k) prec = Inr (Exact (R1 k)) \<and>
          racah_prec_result N j_4 j_6 j_8 j_2 j_5 (of_int k) prec = Inr (Exact (R2 k)) \<and>
          racah_prec_result N j_1 j_4 j_9 j_8 j_7 (of_int k) prec = Inr (Exact (R3 k))"
  proof -
    have "\<forall>k\<in>set ?ks. ?t k = Inr (Exact (?f k))"
      using that by (simp add: wigner_9j_summand_Exact)
    then have "sum_results N ?t ?ks (Exact 0) = Inr (Exact (0 + sum_list (map ?f ?ks)))"
      by (rule sum_results_Exact)
    then show ?thesis
      by simp
  qed
  have "real_of_int (2 * k + 1) \<noteq> 0" for k
  proof -
    have "odd (2 * k + 1)" by simp
    then have "2 * k + 1 \<noteq> 0" by presburger
    then show ?thesis by simp
  qed
  then have 3: "\<forall>k. ?f k = 0 \<longleftrightarrow> R1 k = 0 \<or> R2 k = 0 \<or> R3 k = 0"
    by simp
  show ?thesis
    unfolding f
  proof (intro conjI impI)
    show "fst (wigner_9j N j_1 j_2 j_3 j_4 j_5 j_6 j_7 j_8 j_9 prec fl) = sum_results N ?t ?ks (Exact 0)"
      by (rule 1)
  next
    assume a: "\<forall>k\<in>set ?ks.
          racah_prec_result N j_1 j_2 j_9 j_6 j_3 (of_int k) prec = Inr (Exact (R1 k)) \<and>
          racah_prec_result N j_4 j_6 j_8 j_2 j_5 (of_int k) prec = Inr (Exact (R2 k)) \<and>
          racah_prec_result N j_1 j_4 j_9 j_8 j_7 (of_int k) prec = Inr (Exact (R3 k))"
    show "fst (wigner_9j N j_1 j_2 j_3 j_4 j_5 j_6 j_7 j_8 j_9 prec fl) =
        Inr (Exact (sum_list (map ?f ?ks)))"
      unfolding 1 by (rule 2 [OF a])
  next
    show "\<forall>k. ?f k = 0 \<longleftrightarrow> R1 k = 0 \<or> R2 k = 0 \<or> R3 k = 0"
      by (rule 3)
  qed
qed

lemma not_is_integral_3_2: "\<not> is_integral (3 / 2)"
proof -
  have "\<lfloor>3 / 2 :: rat\<rfloor> = 1"
    by (simp add: floor_eq_iff)
  then show ?thesis
    by (simp add: is_integral_def)
qed

lemma racah_result_half_half: "racah_result (1 / 2) (1 / 2) 1 1 1 0 = Inl ValueError_triangle"
proof -
  have "big_delta_coeff_result (1 / 2) 1 0 = Inl ValueError_triangle"
    by (simp add: big_delta_coeff_result_def not_is_integral_3_2)
  moreover have "\<exists>d. big_delta_coeff_result (1 / 2) (1 / 2) 1 = Inr d"
    by (simp add: big_delta_coeff_result_def)
  moreover have "\<exists>d. big_delta_coeff_result 1 1 1 = Inr d"
    by (simp add: big_delta_coeff_result_def)
  ultimately show ?thesis
    by (auto simp add: racah_result_def bind_e_Inr bind_e_Inl)
qed

theorem wigner_9j_racah_sum_witness:
  "reachable Factlist_init \<and>
   (\<forall>N. fst (wigner_9j N 1 1 1 1 1 1 1 1 0 None Factlist_init) = Inr (Exact (1 / 18))) \<and>
   (\<forall>N. fst (wigner_9j N (1 / 2) (1 / 2) 1 1 1 1 (1 / 2) (1 / 2) 1 None Factlist_init) =
      Inl ValueError_triangle)"
proof -
  define R1 :: "int \<Rightarrow> real" where "R1 = (\<lambda>k. if k = 0 then 0 else 1 / 3)"
  define R2 :: "int \<Rightarrow> real" where "R2 = (\<lambda>k. if k = 0 then - 1 / 3 else 1 / 6)"
  have u: "[0 .. 1 :: int] = [0, 1]"
    by (simp add: upto_rec1)
  then have ks: "[0 .. py_int (min (min (1 + 0) (1 + 1)) (1 + 1))] = [0, 1]"
    by simp
  have f: "fst (racah N a b c d e g None Factlist_init) =
      (case racah_result a b c d e g of Inl e \<Rightarrow> Inl e | Inr r \<Rightarrow> Inr (Exact r))" for N a b c d e g
    unfolding Factlist_init_factorials
    using fst_racah_factorials [of 1 None N a b c d e g] by (simp add: racah_prec_result_None)
  have a: "fst (wigner_9j N 1 1 1 1 1 1 1 1 0 None Factlist_init) = Inr (Exact (1 / 18))" for N
  proof -
    have h: "\<forall>k\<in>set [0 .. py_int (min (min (1 + 0) (1 + 1)) (1 + 1))].
           fst (racah N 1 1 0 1 1 (of_int k) None Factlist_init) = Inr (Exact (R1 k)) \<and>
           fst (racah N 1 1 1 1 1 (of_int k) None Factlist_init) = Inr (Exact (R2 k)) \<and>
           fst (racah N 1 1 0 1 1 (of_int k) None Factlist_init) = Inr (Exact (R1 k))"
      unfolding ks f
      by (simp add: R1_def R2_def racah_result_110110 racah_result_110111 racah_result_111110
          racah_result_111111)
    have "fst (wigner_9j N 1 1 1 1 1 1 1 1 0 None Factlist_init) =
          Inr (Exact (\<Sum>k\<leftarrow>[0 .. py_int (min (min (1 + 0) (1 + 1)) (1 + 1))].
                  of_int (2 * k + 1) * R1 k * R2 k * R1 k))"
      using wigner_9j_racah_sum [OF reachable.init, where prec = None and N = N
          and ?j_1.0 = 1 and ?j_2.0 = 1 and ?j_3.0 = 1
          and ?j_4.0 = 1 and ?j_5.0 = 1 and ?j_6.0 = 1 and ?j_7.0 = 1 and ?j_8.0 = 1 and ?j_9.0 = 0
          and ?R1.0 = R1 and ?R2.0 = R2 and ?R3.0 = R1] h by blast
    then show ?thesis
      unfolding ks by (simp add: R1_def R2_def)
  qed
  have b: "fst (wigner_9j N (1 / 2) (1 / 2) 1 1 1 1 (1 / 2) (1 / 2) 1 None Factlist_init) =
      Inl ValueError_triangle" for N
  proof -
    have ks': "[0 .. py_int (min (min (1 / 2 + 1) (1 / 2 + 1)) (1 + 1 / 2))] = [0, 1]"
      using u by (simp add: py_int_halves)
    have "fst (wigner_9j N (1 / 2) (1 / 2) 1 1 1 1 (1 / 2) (1 / 2) 1 None Factlist_init) =
        sum_results N
          (\<lambda>k. wigner_9j_summand N k
             (fst (racah N (1 / 2) (1 / 2) 1 1 1 (of_int k) None Factlist_init))
             (fst (racah N 1 1 (1 / 2) (1 / 2) 1 (of_int k) None Factlist_init))
             (fst (racah N (1 / 2) 1 1 (1 / 2) (1 / 2) (of_int k) None Factlist_init)))
          [0 .. py_int (min (min (1 / 2 + 1) (1 / 2 + 1)) (1 + 1 / 2))] (Exact 0)"
      using wigner_9j_racah_sum [OF reachable.init, where prec = None and N = N
          and ?j_1.0 = "1 / 2" and ?j_2.0 = "1 / 2" and ?j_3.0 = 1
          and ?j_4.0 = 1 and ?j_5.0 = 1 and ?j_6.0 = 1
          and ?j_7.0 = "1 / 2" and ?j_8.0 = "1 / 2" and ?j_9.0 = 1] by blast
    then show ?thesis
      unfolding ks' f
      by (simp add: racah_result_half_half wigner_9j_summand_def bind_e_Inl)
  qed
  show ?thesis
    by (intro conjI allI a b reachable.init)
qed

subsection \<open>\<open>clebsch_gordan\<close>\<close>

lemma clebsch_gordan_apply:
  assumes "wigner_3j_prec N j_1 j_2 j_3 m_1 m_2 (- m_3) prec fl = (Inr w, fl')"
  shows "clebsch_gordan N j_1 j_2 j_3 m_1 m_2 m_3 prec fl =
           (Inr (num_mul N
                   (num_mul N (py_neg1_pow N (py_int (j_1 - j_2 + m_3)))
                      (sage_sqrt_prec N (2 * j_3 + 1) prec)) w), fl')"
  using assms by (simp add: clebsch_gordan_def Let_def bind_c_apply return_c_apply)

lemma clebsch_gordan_raises:
  assumes "wigner_3j_prec N j_1 j_2 j_3 m_1 m_2 (- m_3) prec fl = (Inl e, fl')"
  shows "clebsch_gordan N j_1 j_2 j_3 m_1 m_2 m_3 prec fl = (Inl e, fl')"
  using assms by (simp add: clebsch_gordan_def Let_def bind_c_apply)

lemma wigner_3j_formula_5_2: "wigner_3j_formula (5 / 2) 4 (3 / 2) (5 / 2) (- 4) (3 / 2) = - 1 / 3"
proof -
  have s: "wigner_3j_sum (5 / 2) 4 (3 / 2) (5 / 2) (- 4) = 1 / 720"
    by (simp add: wigner_3j_sum_def fact_numeral)
  have r: "wigner_3j_radicand (5 / 2) 4 (3 / 2) (5 / 2) (- 4) (- (3 / 2)) = 57600"
    by (simp add: wigner_3j_radicand_def fact_numeral)
  have q: "sqrt 57600 = 240"
    by (rule real_sqrt_unique) simp_all
  have e: "py_int (5 / 2 - 4 - 3 / 2) = - 3"
    using py_int_of_int [of "- 3"] by simp
  show ?thesis
    unfolding wigner_3j_formula_def s r e by (simp add: q of_rat_divide)
qed

lemma wigner_3j_5_2:
  "wigner_3j (5 / 2) 4 (3 / 2) (5 / 2) (- 4) (3 / 2) Factlist_init = (Inr (- 1 / 3), factorials 10)"
proof -
  have J: "5 / 2 + 4 + 3 / 2 = rat_of_int 8"
    by simp
  have "wigner_3j (5 / 2) 4 (3 / 2) (5 / 2) (- 4) (3 / 2) (factorials 1) =
          (Inr (wigner_3j_formula (5 / 2) 4 (3 / 2) (5 / 2) (- 4) (3 / 2)),
           factorials (max 1 (nat 8 + 2)))"
    by (rule wigner_3j_computed [OF _ _ _ _ _ _ _ _ _ _ _ _ _ _ J]) simp_all
  then show ?thesis
    by (simp add: wigner_3j_formula_5_2 Factlist_init_factorials)
qed

text \<open>
  C7. \<open>clebsch_gordan\<close> has no validation of its own: it multiplies
  \<open>(-1) ** int(j_1 - j_2 + m_3)\<close>, \<open>sqrt(2 j_3 + 1)\<close> and what \<open>wigner_3j\<close> returns for \<open>m_3\<close>
  negated, in this order. The phase is not converted with \<open>Integer\<close>, as the sign in
  \<open>wigner_3j\<close> is: for a negative exponent Python computes a float, and the result is a
  floating point number also when no precision is asked for. At \<open>j = (5/2, 4, 3/2)\<close>,
  \<open>m = (5/2, -4, -3/2)\<close> every check passes, the exponent is \<open>-3\<close>, the 3-j symbol is the
  exact \<open>-1/3\<close>, and \<open>clebsch_gordan\<close> returns the inexact product \<open>((-1.0) * 2) * (-1/3)\<close>
  where the specification has the exact number \<open>2/3\<close>.
\<close>

theorem clebsch_gordan_float_phase:
  "reachable Factlist_init \<and>
   is_integral (2 * (5 / 2)) \<and> is_integral (2 * 4) \<and> is_integral (2 * (3 / 2)) \<and>
   is_integral (2 * (- 4)) \<and> is_integral (2 * (- 3 / 2)) \<and>
   py_int (5 / 2 - 4 + - 3 / 2) = - 3 \<and>
   fst (wigner_3j_prec N (5 / 2) 4 (3 / 2) (5 / 2) (- 4) (3 / 2) None Factlist_init) =
     Inr (Exact (- 1 / 3)) \<and>
   fst (clebsch_gordan N (5 / 2) 4 (3 / 2) (5 / 2) (- 4) (- 3 / 2) None Factlist_init) =
     Inr (Inexact (mul_inexact N (Inexact (mul_inexact N (Inexact (py_float N (- 1))) (Exact 2)))
            (Exact (- 1 / 3))))"
proof -
  have e: "py_int (5 / 2 - 4 + - 3 / 2) = - 3"
    using py_int_of_int [of "- 3"] by simp
  have w: "wigner_3j_prec N (5 / 2) 4 (3 / 2) (5 / 2) (- 4) (- (- 3 / 2)) None Factlist_init =
      (Inr (Exact (- 1 / 3)), factorials 10)"
    using wigner_3j_5_2 by (simp add: wigner_3j_prec_None)
  have p: "py_neg1_pow N (- 3) = Inexact (py_float N (- 1))"
    by (simp add: py_neg1_pow_def neg1_pow_def)
  have q: "sage_sqrt_prec N (2 * (3 / 2) + 1) None = Exact 2"
    by (simp add: sage_sqrt_prec_def sage_sqrt_def)
  have c: "fst (clebsch_gordan N (5 / 2) 4 (3 / 2) (5 / 2) (- 4) (- 3 / 2) None Factlist_init) =
     Inr (Inexact (mul_inexact N (Inexact (mul_inexact N (Inexact (py_float N (- 1))) (Exact 2)))
            (Exact (- 1 / 3))))"
    unfolding clebsch_gordan_apply [OF w] e p q by (simp add: num_mul_def)
  have i: "is_integral (2 * (5 / 2))" "is_integral (2 * 4)" "is_integral (2 * (3 / 2))"
    "is_integral (2 * (- 4))" "is_integral (2 * (- 3 / 2))"
    by simp_all
  show ?thesis
    using w c e i reachable.init by simp
qed

theorem clebsch_gordan_float_phase_witness:
  "(\<forall>N. fst (clebsch_gordan N (5 / 2) 4 (3 / 2) (5 / 2) (- 4) (- 3 / 2) None Factlist_init) \<noteq>
      Inr (Exact (2 / 3))) \<and>
   (- 1) powi (- 3) * sqrt (2 * (3 / 2) + 1) * (- 1 / 3) = (2 / 3 :: real)"
proof -
  have "fst (clebsch_gordan N (5 / 2) 4 (3 / 2) (5 / 2) (- 4) (- 3 / 2) None Factlist_init) \<noteq>
      Inr (Exact (2 / 3))" for N
    using clebsch_gordan_float_phase [of N] by simp
  moreover have "(- 1) powi (- 3) * sqrt (2 * (3 / 2) + 1) * (- 1 / 3) = (2 / 3 :: real)"
    by (simp add: power_int_def)
  ultimately show ?thesis
    by blast
qed

end
